theory Spec2Isabelle
  imports Complex_Main
begin

section \<open>The numpy fragment used by the models\<close>

text \<open>
  The two model classes of \<^verbatim>\<open>docs/model_creation_tutorial.ipynb\<close> compute with numpy
  arrays of float64. A float64 is modelled as the real number it represents or one of the
  three special values of IEEE arithmetic. The result of every operation is rounded to the
  nearest float64, ties to even, and is an infinity when it rounds to \<^verbatim>\<open>2^1024\<close> or
  beyond; \<^verbatim>\<open>np.exp\<close> and \<^verbatim>\<open>np.log\<close> are taken to round correctly. The two zeros of
  IEEE arithmetic, which compare equal, are one value. Division by zero, the logarithm of
  a non-positive number and the arithmetic of the special values follow IEEE 754 (numpy
  signals these with a warning and returns the special value; it raises nothing).
\<close>

datatype npfloat = Fin real | PInf | NInf | NaN

text \<open>The integer nearest to \<open>q\<close>; of two integers equally near, the even one.\<close>

definition round_even :: "real \<Rightarrow> int" where
  "round_even q =
     (let n = \<lfloor>q\<rfloor>; d = q - of_int n
      in if d < 1/2 then n else if 1/2 < d then n + 1 else if even n then n else n + 1)"

text \<open>
  A float64 has a significand of 53 bits, and its exponent is at least \<open>-1022\<close>: near \<open>r\<close>
  the float64s are the multiples of \<open>2\<close> to the power \<open>ulp_exponent r\<close>, and \<open>round64 r\<close> is
  the nearest of them.
\<close>

definition ulp_exponent :: "real \<Rightarrow> int" where
  "ulp_exponent r = max \<lfloor>log 2 \<bar>r\<bar>\<rfloor> (- 1022) - 52"

definition round64 :: "real \<Rightarrow> real" where
  "round64 r = of_int (round_even (r / 2 powi ulp_exponent r)) * 2 powi ulp_exponent r"

definition np_fin :: "real \<Rightarrow> npfloat" where
  "np_fin r =
     (let v = round64 r
      in if 2 ^ 1024 \<le> v then PInf else if v \<le> - (2 ^ 1024) then NInf else Fin v)"

text \<open>The real numbers that are a finite float64.\<close>

definition float64 :: "real \<Rightarrow> bool" where
  "float64 r \<longleftrightarrow> round64 r = r \<and> \<bar>r\<bar> < 2 ^ 1024"

fun np_neg :: "npfloat \<Rightarrow> npfloat" where
  "np_neg (Fin a) = Fin (- a)"
| "np_neg PInf = NInf"
| "np_neg NInf = PInf"
| "np_neg NaN = NaN"

fun np_add :: "npfloat \<Rightarrow> npfloat \<Rightarrow> npfloat" where
  "np_add (Fin a) (Fin b) = np_fin (a + b)"
| "np_add NaN b = NaN"
| "np_add a NaN = NaN"
| "np_add PInf NInf = NaN"
| "np_add NInf PInf = NaN"
| "np_add PInf b = PInf"
| "np_add a PInf = PInf"
| "np_add NInf b = NInf"
| "np_add a NInf = NInf"

definition np_sub :: "npfloat \<Rightarrow> npfloat \<Rightarrow> npfloat" where
  "np_sub a b = np_add a (np_neg b)"

text \<open>The product of an infinity of the given sign (\<open>True\<close> for \<open>+inf\<close>) with a finite number.\<close>

definition inf_times :: "bool \<Rightarrow> real \<Rightarrow> npfloat" where
  "inf_times pos a =
     (if a = 0 then NaN else if (0 < a) = pos then PInf else NInf)"

fun np_mul :: "npfloat \<Rightarrow> npfloat \<Rightarrow> npfloat" where
  "np_mul (Fin a) (Fin b) = np_fin (a * b)"
| "np_mul NaN b = NaN"
| "np_mul a NaN = NaN"
| "np_mul (Fin a) PInf = inf_times True a"
| "np_mul (Fin a) NInf = inf_times False a"
| "np_mul PInf (Fin b) = inf_times True b"
| "np_mul NInf (Fin b) = inf_times False b"
| "np_mul PInf PInf = PInf"
| "np_mul PInf NInf = NInf"
| "np_mul NInf PInf = NInf"
| "np_mul NInf NInf = PInf"

text \<open>
  Division. A zero divisor is the positive zero \<open>0.0\<close>: the only divisor of the models is
  \<^verbatim>\<open>2 * np.power(st, 2.)\<close>, a square, whose zero is never negative.
\<close>

fun np_div :: "npfloat \<Rightarrow> npfloat \<Rightarrow> npfloat" where
  "np_div (Fin a) (Fin b) =
     (if b = 0 then (if a = 0 then NaN else if 0 < a then PInf else NInf)
      else np_fin (a / b))"
| "np_div NaN b = NaN"
| "np_div a NaN = NaN"
| "np_div (Fin a) PInf = Fin 0"
| "np_div (Fin a) NInf = Fin 0"
| "np_div PInf (Fin b) = (if 0 \<le> b then PInf else NInf)"
| "np_div NInf (Fin b) = (if 0 \<le> b then NInf else PInf)"
| "np_div PInf PInf = NaN"
| "np_div PInf NInf = NaN"
| "np_div NInf PInf = NaN"
| "np_div NInf NInf = NaN"

text \<open>\<^verbatim>\<open>np.power(v, 2.)\<close>: the only exponent the models use.\<close>

fun np_power2 :: "npfloat \<Rightarrow> npfloat" where
  "np_power2 (Fin a) = np_fin (a * a)"
| "np_power2 PInf = PInf"
| "np_power2 NInf = PInf"
| "np_power2 NaN = NaN"

fun np_exp :: "npfloat \<Rightarrow> npfloat" where
  "np_exp (Fin a) = np_fin (exp a)"
| "np_exp PInf = PInf"
| "np_exp NInf = Fin 0"
| "np_exp NaN = NaN"

fun np_log :: "npfloat \<Rightarrow> npfloat" where
  "np_log (Fin a) = (if 0 < a then np_fin (ln a) else if a = 0 then NInf else NaN)"
| "np_log PInf = PInf"
| "np_log NInf = NaN"
| "np_log NaN = NaN"

subsection \<open>Arrays and broadcasting\<close>

text \<open>
  An \<^verbatim>\<open>ndarray\<close> is its shape and its elements in row-major order. It is well formed
  when the number of elements is the product of the shape.
\<close>

record ndarray =
  shape :: "nat list"
  elems :: "npfloat list"

definition wf_array :: "ndarray \<Rightarrow> bool" where
  "wf_array a \<longleftrightarrow> length (elems a) = prod_list (shape a)"

definition array1 :: "npfloat list \<Rightarrow> ndarray" where
  "array1 xs = \<lparr>shape = [length xs], elems = xs\<rparr>"

datatype error = ValueError | IndexError | KeyError

definition bind_err :: "error + 'a \<Rightarrow> ('a \<Rightarrow> error + 'b) \<Rightarrow> error + 'b" where
  "bind_err m f = (case m of Inl e \<Rightarrow> Inl e | Inr v \<Rightarrow> f v)"

text \<open>An operation of an array with a scalar, and a unary function, work element by element.\<close>

definition arr_map :: "(npfloat \<Rightarrow> npfloat) \<Rightarrow> ndarray \<Rightarrow> ndarray" where
  "arr_map f a = a\<lparr>elems := map f (elems a)\<rparr>"

text \<open>
  Broadcasting of two shapes: the shorter one is padded with ones on the left, and two
  dimensions agree when they are equal or one of them is 1. Otherwise numpy raises
  \<^verbatim>\<open>ValueError: operands could not be broadcast together\<close>.
\<close>

definition pad_shape :: "nat \<Rightarrow> nat list \<Rightarrow> nat list" where
  "pad_shape n s = replicate (n - length s) 1 @ s"

definition join_dim :: "nat \<Rightarrow> nat \<Rightarrow> nat option" where
  "join_dim d e = (if d = e then Some d else if d = 1 then Some e
                   else if e = 1 then Some d else None)"

definition broadcast_shapes :: "nat list \<Rightarrow> nat list \<Rightarrow> nat list option" where
  "broadcast_shapes s1 s2 =
     (let n = max (length s1) (length s2)
      in those (map2 join_dim (pad_shape n s1) (pad_shape n s2)))"

text \<open>
  \<open>expand ds es xs\<close> are the elements of the array of shape \<open>es\<close> and elements \<open>xs\<close>
  stretched to the shape \<open>ds\<close> of the same rank: along an axis where the shapes agree the
  sub-arrays are expanded one by one, along an axis of length 1 the single sub-array is
  repeated.
\<close>

fun expand :: "nat list \<Rightarrow> nat list \<Rightarrow> 'a list \<Rightarrow> 'a list" where
  "expand (d # ds) (e # es) xs =
     (if e = d
      then concat (map (\<lambda>i. expand ds es (take (prod_list es) (drop (i * prod_list es) xs)))
                       [0..<d])
      else concat (replicate d (expand ds es xs)))"
| "expand ds es xs = xs"

text \<open>A shape stretches to a shape of the same rank when each axis agrees or has length 1.\<close>

abbreviation (input) compat :: "nat list \<Rightarrow> nat list \<Rightarrow> bool" where
  "compat ds es \<equiv> list_all2 (\<lambda>d e. e = d \<or> e = 1) ds es"

definition broadcast_to :: "nat list \<Rightarrow> ndarray \<Rightarrow> npfloat list" where
  "broadcast_to s a = expand s (pad_shape (length s) (shape a)) (elems a)"

definition arr_binop :: "(npfloat \<Rightarrow> npfloat \<Rightarrow> npfloat) \<Rightarrow> ndarray \<Rightarrow> ndarray \<Rightarrow> error + ndarray" where
  "arr_binop f a b =
     (case broadcast_shapes (shape a) (shape b) of
        None \<Rightarrow> Inl ValueError
      | Some s \<Rightarrow> Inr \<lparr>shape = s, elems = map2 f (broadcast_to s a) (broadcast_to s b)\<rparr>)"

text \<open>
  \<^verbatim>\<open>np.sum\<close> of all elements; the sum of no element is \<open>0.0\<close>. The elements are added
  one at a time; numpy adds the elements of a long array pairwise, which can change the
  last bits of the sum.
\<close>

definition np_sum :: "ndarray \<Rightarrow> npfloat" where
  "np_sum a = foldr np_add (elems a) (Fin 0)"

text \<open>
  \<^verbatim>\<open>np.tile(a, (k, 1))\<close>: an array of fewer than two dimensions is first given leading
  axes of length 1; then the axis before the last is repeated \<open>k\<close> times.
\<close>

definition np_tile :: "ndarray \<Rightarrow> nat \<Rightarrow> ndarray" where
  "np_tile a k =
     (let s = pad_shape 2 (shape a);
          pre = butlast (butlast s);
          m = last (butlast s);
          n = last s;
          blocks = map (\<lambda>i. take (m * n) (drop (i * (m * n)) (elems a))) [0..<prod_list pre]
      in \<lparr>shape = pre @ [k * m, n],
          elems = concat (map (\<lambda>b. concat (replicate k b)) blocks)\<rparr>)"

text \<open>Reading \<^verbatim>\<open>x[i]\<close> for a non-negative index, and \<^verbatim>\<open>d[k]\<close> in a dict.\<close>

definition getitem :: "'a list \<Rightarrow> nat \<Rightarrow> error + 'a" where
  "getitem xs i = (if i < length xs then Inr (xs ! i) else Inl IndexError)"

definition dict_getitem :: "('k \<rightharpoonup> 'v) \<Rightarrow> 'k \<Rightarrow> error + 'v" where
  "dict_getitem d k = (case d k of None \<Rightarrow> Inl KeyError | Some v \<Rightarrow> Inr v)"


section \<open>The model classes\<close>

subsection \<open>The base class\<close>

text \<open>
  The dict \<^verbatim>\<open>data\<close> handed to the constructors, with the entries they read:
  \<^verbatim>\<open>data["num_trials"]\<close> and \<^verbatim>\<open>data["conditions"]\<close> are read by
  \<^verbatim>\<open>CatSetTime.__init__\<close>, the time window and the observed spikes by the base class.
  The conditions are a dict from the condition label to the indicator array.
\<close>

record data =
  data_time_window :: "npfloat list"
  data_spikes :: ndarray
  data_num_trials :: nat
  data_conditions :: "int \<rightharpoonup> ndarray"

text \<open>
  The attributes of an instance. \<^verbatim>\<open>self.function\<close> does not exist before the first
  call of \<^verbatim>\<open>Time.model\<close>: it is \<open>None\<close> until then.
\<close>

record Model =
  t :: ndarray
  spikes :: ndarray
  param_names :: "string list"
  function' :: "ndarray option"

text \<open>
  Modelled from the spec: the constructor of the base class \<^verbatim>\<open>Model\<close>, which is not
  part of the notebook. It holds the time window, an ordered sequence of sample points,
  as \<^verbatim>\<open>self.t\<close> and the observed response as \<^verbatim>\<open>self.spikes\<close>.
\<close>

definition Model_init :: "data \<Rightarrow> Model" where
  "Model_init d =
     \<lparr>t = array1 (data_time_window d), spikes = data_spikes d,
      param_names = [], function' = None\<rparr>"

text \<open>
  The local variables a method binds, by name, and the value of one of them. The models
  read only names they have bound.
\<close>

type_synonym locals = "(string \<times> npfloat) list"

definition local_var :: "locals \<Rightarrow> string \<Rightarrow> npfloat" where
  "local_var l n = (case map_of l n of Some v \<Rightarrow> v | None \<Rightarrow> NaN)"

text \<open>
  The expression \<^verbatim>\<open>np.exp(-np.power(self.t - ut, 2.) / (2 * np.power(st, 2.)))\<close>,
  which both models evaluate.
\<close>

definition gaussian :: "ndarray \<Rightarrow> npfloat \<Rightarrow> npfloat \<Rightarrow> ndarray" where
  "gaussian tt ut st =
     arr_map np_exp
       (arr_map (\<lambda>v. np_div v (np_mul (Fin 2) (np_power2 st)))
          (arr_map np_neg (arr_map np_power2 (arr_map (\<lambda>v. np_sub v ut) tt))))"

text \<open>
  The cost both \<^verbatim>\<open>objective\<close> methods compute from the observed spikes and the
  prediction \<^verbatim>\<open>fun\<close>:
  \<^verbatim>\<open>np.sum(self.spikes * (-np.log(fun)) + (1 - self.spikes) * (-np.log(1 - (fun))))\<close>.
\<close>

definition objective_sum :: "ndarray \<Rightarrow> ndarray \<Rightarrow> error + npfloat" where
  "objective_sum sp fn =
     bind_err (arr_binop np_mul sp (arr_map np_neg (arr_map np_log fn))) (\<lambda>lhs.
     bind_err (arr_binop np_mul (arr_map (np_sub (Fin 1)) sp)
                 (arr_map np_neg (arr_map np_log (arr_map (np_sub (Fin 1)) fn)))) (\<lambda>rhs.
     bind_err (arr_binop np_add lhs rhs) (\<lambda>terms.
     Inr (np_sum terms))))"

subsection \<open>The class \<^verbatim>\<open>Time\<close>\<close>

type_synonym Time = Model

definition Time_init :: "data \<Rightarrow> Time" where
  "Time_init d = (Model_init d)\<lparr>param_names := [''a_1'', ''ut'', ''st'', ''a_0'']\<rparr>"

text \<open>
  \<^verbatim>\<open>a_1, ut, st, a_0 = x\<close>: the unpacking raises \<^verbatim>\<open>ValueError\<close> unless \<open>x\<close> has
  exactly four elements.
\<close>

definition Time_unpack :: "npfloat list \<Rightarrow> error + locals" where
  "Time_unpack x =
     (case x of
        [v0, v1, v2, v3] \<Rightarrow> Inr [(''a_1'', v0), (''ut'', v1), (''st'', v2), (''a_0'', v3)]
      | _ \<Rightarrow> Inl ValueError)"

text \<open>
  A method returns its result, or the exception it raised, together with the instance as
  the call left it.
\<close>

definition Time_model :: "Time \<Rightarrow> npfloat list \<Rightarrow> (error + ndarray) \<times> Time" where
  "Time_model self x =
     (case Time_unpack x of
        Inl e \<Rightarrow> (Inl e, self)
      | Inr l \<Rightarrow>
          (let fn = arr_map (\<lambda>v. np_add v (local_var l ''a_0''))
                      (arr_map (np_mul (local_var l ''a_1''))
                         (gaussian (t self) (local_var l ''ut'') (local_var l ''st'')))
           in (Inr fn, self\<lparr>function' := Some fn\<rparr>)))"

definition Time_objective :: "Time \<Rightarrow> npfloat list \<Rightarrow> (error + npfloat) \<times> Time" where
  "Time_objective self x =
     (case Time_model self x of
        (Inl e, self') \<Rightarrow> (Inl e, self')
      | (Inr fn, self') \<Rightarrow> (objective_sum (spikes self') fn, self'))"

subsection \<open>The class \<^verbatim>\<open>CatSetTime\<close>\<close>

record CatSetTime = Model +
  plot_t :: ndarray
  conditions :: "int \<rightharpoonup> ndarray"

definition CatSetTime_init :: "data \<Rightarrow> CatSetTime" where
  "CatSetTime_init d =
     (let self0 = Model.extend (Model_init d) \<lparr>plot_t = t (Model_init d), conditions = Map.empty\<rparr>;
          self1 = self0\<lparr>t := np_tile (t self0) (data_num_trials d)\<rparr>;
          self2 = self1\<lparr>conditions := data_conditions d\<rparr>
      in self2\<lparr>param_names := [''ut'', ''st'', ''a_0'', ''a_1'', ''a_2'']\<rparr>)"

text \<open>
  \<^verbatim>\<open>ut, st, a_0 = x[0], x[1], x[2]\<close> and \<^verbatim>\<open>a_1, a_2 = x[3], x[4]\<close>: an index past the
  end of \<open>x\<close> raises \<^verbatim>\<open>IndexError\<close>.
\<close>

definition CatSetTime_unpack :: "npfloat list \<Rightarrow> error + locals" where
  "CatSetTime_unpack x =
     bind_err (getitem x 0) (\<lambda>v0.
     bind_err (getitem x 1) (\<lambda>v1.
     bind_err (getitem x 2) (\<lambda>v2.
     bind_err (getitem x 3) (\<lambda>v3.
     bind_err (getitem x 4) (\<lambda>v4.
     Inr [(''ut'', v0), (''st'', v1), (''a_0'', v2), (''a_1'', v3), (''a_2'', v4)])))))"

definition CatSetTime_model :: "CatSetTime \<Rightarrow> npfloat list \<Rightarrow> (error + ndarray) \<times> CatSetTime" where
  "CatSetTime_model self x =
     (bind_err (CatSetTime_unpack x) (\<lambda>l.
      bind_err (dict_getitem (conditions self) 1) (\<lambda>c1.
      bind_err (dict_getitem (conditions self) 2) (\<lambda>c2.
      bind_err (arr_binop np_mul (arr_map (np_mul (local_var l ''a_1'')) c1)
                  (gaussian (t self) (local_var l ''ut'') (local_var l ''st''))) (\<lambda>term1.
      bind_err (arr_binop np_mul (arr_map (np_mul (local_var l ''a_2'')) c2)
                  (gaussian (t self) (local_var l ''ut'') (local_var l ''st''))) (\<lambda>term2.
      bind_err (arr_binop np_add term1 term2) (\<lambda>both.
      Inr (arr_map (\<lambda>v. np_add v (local_var l ''a_0'')) both))))))),
      self)"

definition CatSetTime_objective :: "CatSetTime \<Rightarrow> npfloat list \<Rightarrow> (error + npfloat) \<times> CatSetTime" where
  "CatSetTime_objective self x =
     (case CatSetTime_model self x of
        (Inl e, self') \<Rightarrow> (Inl e, self')
      | (Inr fn, self') \<Rightarrow> (objective_sum (spikes self') fn, self'))"


subsection \<open>A small data set\<close>

text \<open>
  Two trials observed at the single time point 0; the first trial belongs to condition 1
  and the second to condition 2. The indicators are column vectors, one entry per trial.
\<close>

definition example_data :: data where
  "example_data =
     \<lparr>data_time_window = [Fin 0],
      data_spikes = \<lparr>shape = [2, 1], elems = [Fin 1, Fin 0]\<rparr>,
      data_num_trials = 2,
      data_conditions = [1 \<mapsto> \<lparr>shape = [2, 1], elems = [Fin 1, Fin 0]\<rparr>,
                         2 \<mapsto> \<lparr>shape = [2, 1], elems = [Fin 0, Fin 1]\<rparr>]\<rparr>"


text \<open>
  A \<^verbatim>\<open>CatSetTime\<close> instance that holds one trial, observed at the time point 1, which
  belongs to both conditions.
\<close>

definition overlap_CatSetTime :: CatSetTime where
  "overlap_CatSetTime =
     \<lparr>t = \<lparr>shape = [1, 1], elems = [Fin 1]\<rparr>,
      spikes = \<lparr>shape = [1, 1], elems = [Fin 0]\<rparr>,
      param_names = [''ut'', ''st'', ''a_0'', ''a_1'', ''a_2''], function' = None,
      plot_t = array1 [Fin 1],
      conditions = [1 \<mapsto> \<lparr>shape = [1, 1], elems = [Fin 1]\<rparr>,
                    2 \<mapsto> \<lparr>shape = [1, 1], elems = [Fin 1]\<rparr>]\<rparr>"

subsection \<open>Well-formed instances\<close>

text \<open>The arrays an instance holds are well formed.\<close>

definition wf_Model :: "'a Model_scheme \<Rightarrow> bool" where
  "wf_Model self \<longleftrightarrow> wf_array (t self) \<and> wf_array (spikes self)"

definition wf_CatSetTime :: "CatSetTime \<Rightarrow> bool" where
  "wf_CatSetTime self \<longleftrightarrow> wf_Model self \<and> (\<forall>c \<in> ran (conditions self). wf_array c)"

subsection \<open>Sequences of calls\<close>

text \<open>
  A solver calls \<^verbatim>\<open>model\<close> and \<^verbatim>\<open>objective\<close> repeatedly and in any order; the instance
  after a sequence of calls, whatever they returned or raised.
\<close>

datatype call = Model_call "npfloat list" | Objective_call "npfloat list"

fun Time_calls :: "Time \<Rightarrow> call list \<Rightarrow> Time" where
  "Time_calls self [] = self"
| "Time_calls self (Model_call x # cs) = Time_calls (snd (Time_model self x)) cs"
| "Time_calls self (Objective_call x # cs) = Time_calls (snd (Time_objective self x)) cs"

fun CatSetTime_calls :: "CatSetTime \<Rightarrow> call list \<Rightarrow> CatSetTime" where
  "CatSetTime_calls self [] = self"
| "CatSetTime_calls self (Model_call x # cs) = CatSetTime_calls (snd (CatSetTime_model self x)) cs"
| "CatSetTime_calls self (Objective_call x # cs) =
     CatSetTime_calls (snd (CatSetTime_objective self x)) cs"

subsection \<open>Exchanging the condition indicators\<close>

text \<open>
  The instance whose indicators of the conditions 1 and 2 are exchanged: its
  \<^verbatim>\<open>model\<close> multiplies \<open>a_1\<close> by \<open>c2\<close> and \<open>a_2\<close> by \<open>c1\<close>.
\<close>

definition swap_conditions :: "CatSetTime \<Rightarrow> CatSetTime" where
  "swap_conditions self =
     self\<lparr>conditions := (conditions self)(1 := conditions self 2, 2 := conditions self 1)\<rparr>"

section \<open>The cost as the specification states it\<close>

text \<open>
  The specification gives the cost of binary observations \<open>o\<^sub>i\<close> and predicted
  probabilities \<open>p\<^sub>i\<close> as the sum over \<open>i\<close> of
  \<^verbatim>\<open>-o_i*log(p_i) - (1-o_i)*log(1-p_i)\<close>.
\<close>

definition bernoulli_term :: "npfloat \<Rightarrow> npfloat \<Rightarrow> npfloat" where
  "bernoulli_term ob p =
     np_sub (np_mul (np_neg ob) (np_log p))
            (np_mul (np_sub (Fin 1) ob) (np_log (np_sub (Fin 1) p)))"

definition bernoulli_nll :: "npfloat list \<Rightarrow> npfloat list \<Rightarrow> npfloat" where
  "bernoulli_nll obs ps =
     foldr np_add (map (\<lambda>i. bernoulli_term (obs ! i) (ps ! i)) [0..<length obs]) (Fin 0)"

text \<open>
  For an array of observations and an array of predictions the two are first brought to
  their common shape, so that they are aligned index for index; arrays of equal shape are
  left as they are.
\<close>

definition bernoulli_nll_arrays :: "ndarray \<Rightarrow> ndarray \<Rightarrow> error + npfloat" where
  "bernoulli_nll_arrays obs p =
     (case broadcast_shapes (shape obs) (shape p) of
        None \<Rightarrow> Inl ValueError
      | Some s \<Rightarrow> Inr (bernoulli_nll (broadcast_to s obs) (broadcast_to s p)))"

section \<open>The prediction of \<^verbatim>\<open>CatSetTime\<close> in closed form\<close>

text \<open>
  The prediction written with a single gaussian term,
  \<^verbatim>\<open>(a_1*c1 + a_2*c2) * np.exp(-np.power(self.t - ut, 2.) / (2 * np.power(st, 2.))) + a_0\<close>:
  the two conditions contribute an amplitude each, and share the centre \<open>ut\<close> and the
  width \<open>st\<close>.
\<close>

definition CatSetTime_closed_form :: "CatSetTime \<Rightarrow> npfloat list \<Rightarrow> error + ndarray" where
  "CatSetTime_closed_form self x =
     bind_err (CatSetTime_unpack x) (\<lambda>l.
     bind_err (dict_getitem (conditions self) 1) (\<lambda>c1.
     bind_err (dict_getitem (conditions self) 2) (\<lambda>c2.
     bind_err (arr_binop np_add (arr_map (np_mul (local_var l ''a_1'')) c1)
                 (arr_map (np_mul (local_var l ''a_2'')) c2)) (\<lambda>amplitude.
     bind_err (arr_binop np_mul amplitude
                 (gaussian (t self) (local_var l ''ut'') (local_var l ''st''))) (\<lambda>bump.
     Inr (arr_map (\<lambda>v. np_add v (local_var l ''a_0'')) bump))))))"

section \<open>Properties\<close>

subsection \<open>Rounding to the nearest float64\<close>

lemma round_even_of_int [simp]: "round_even (of_int n) = n"
  by (simp add: round_even_def)

lemma round_even_0 [simp]: "round_even 0 = 0"
  using round_even_of_int[of 0] by simp

lemma round_even_le: "q \<le> of_int N \<Longrightarrow> round_even q \<le> N"
proof -
  assume q: "q \<le> of_int N"
  have f: "\<lfloor>q\<rfloor> \<le> N" using q by (simp add: floor_le_iff)
  show ?thesis
  proof (cases "q \<in> \<int>")
    case True
    then obtain n where n: "q = of_int n" by (rule Ints_cases)
    then show ?thesis using f by simp
  next
    case False
    then have "of_int \<lfloor>q\<rfloor> \<noteq> q" by (metis Ints_of_int)
    then have "of_int \<lfloor>q\<rfloor> < q" by linarith
    with q have "of_int \<lfloor>q\<rfloor> < (of_int N :: real)" by linarith
    then have "\<lfloor>q\<rfloor> < N" by simp
    then show ?thesis by (simp add: round_even_def Let_def)
  qed
qed

lemma round_even_ge: "of_int N \<le> q \<Longrightarrow> N \<le> round_even q"
proof -
  assume q: "of_int N \<le> q"
  then have "N \<le> \<lfloor>q\<rfloor>" by (simp add: le_floor_iff)
  then show ?thesis by (simp add: round_even_def Let_def)
qed

lemma round_even_neg: "round_even (- q) = - round_even q"
proof (cases "q \<in> \<int>")
  case True
  then obtain n where "q = of_int n" by (rule Ints_cases)
  then show ?thesis using round_even_of_int[of "- n"] by simp
next
  case False
  then have "of_int \<lfloor>q\<rfloor> \<noteq> q" by (metis Ints_of_int)
  then have lt: "of_int \<lfloor>q\<rfloor> < q" by linarith
  have fl: "\<lfloor>- q\<rfloor> = - \<lfloor>q\<rfloor> - 1"
  proof (rule floor_unique)
    show "of_int (- \<lfloor>q\<rfloor> - 1) \<le> - q" by simp linarith
    show "- q < of_int (- \<lfloor>q\<rfloor> - 1) + 1" using lt by simp
  qed
  define n where "n = \<lfloor>q\<rfloor>"
  define d where "d = q - of_int n"
  have d: "0 < d" "d < 1" using lt by (simp_all add: d_def n_def) linarith
  have d': "- q - of_int (- n - 1) = 1 - d" by (simp add: d_def)
  have ev: "even (- n - 1) \<longleftrightarrow> odd n" by simp
  show ?thesis
    unfolding round_even_def fl Let_def n_def[symmetric] d' d_def[symmetric] ev
    using d by auto
qed


lemma log2_bounds:
  "r \<noteq> 0 \<Longrightarrow> 2 powi \<lfloor>log 2 \<bar>r\<bar>\<rfloor> \<le> \<bar>r\<bar> \<and> \<bar>r\<bar> < 2 powi (\<lfloor>log 2 \<bar>r\<bar>\<rfloor> + 1)"
proof -
  assume "r \<noteq> 0"
  then have p: "0 < \<bar>r\<bar>" by simp
  have "2 powr real_of_int \<lfloor>log 2 \<bar>r\<bar>\<rfloor> \<le> \<bar>r\<bar> \<and>
        \<bar>r\<bar> < 2 powr real_of_int (\<lfloor>log 2 \<bar>r\<bar>\<rfloor> + 1)"
    using floor_log_eq_powr_iff[OF p, of 2 "\<lfloor>log 2 \<bar>r\<bar>\<rfloor>"] by simp
  then show ?thesis
    unfolding powr_real_of_int'[of 2, simplified] by simp
qed

lemma ulp_exponent_neg [simp]: "ulp_exponent (- r) = ulp_exponent r"
  by (simp add: ulp_exponent_def)

lemma round64_neg: "round64 (- r) = - round64 r"
  by (simp add: round64_def round_even_neg)

lemma round64_0 [simp]: "round64 0 = 0"
  by (simp add: round64_def)

lemma round_even_mono: "q \<le> q' \<Longrightarrow> round_even q \<le> round_even q'"
proof -
  assume le: "q \<le> q'"
  have f: "\<lfloor>q\<rfloor> \<le> \<lfloor>q'\<rfloor>" using le by (rule floor_mono)
  show ?thesis
  proof (cases "\<lfloor>q\<rfloor> < \<lfloor>q'\<rfloor>")
    case True
    have "q \<le> of_int (\<lfloor>q\<rfloor> + 1)" by linarith
    then have "round_even q \<le> \<lfloor>q\<rfloor> + 1" by (rule round_even_le)
    moreover have "\<lfloor>q'\<rfloor> \<le> round_even q'" by (rule round_even_ge) simp
    ultimately show ?thesis using True by linarith
  next
    case False
    with f have "\<lfloor>q\<rfloor> = \<lfloor>q'\<rfloor>" by simp
    then show ?thesis using le by (auto simp: round_even_def Let_def)
  qed
qed

lemma ulp_exponent_mono: "r \<noteq> 0 \<Longrightarrow> \<bar>r\<bar> \<le> \<bar>s\<bar> \<Longrightarrow> ulp_exponent r \<le> ulp_exponent s"
proof -
  assume a: "r \<noteq> 0" "\<bar>r\<bar> \<le> \<bar>s\<bar>"
  then have "log 2 \<bar>r\<bar> \<le> log 2 \<bar>s\<bar>" by simp
  then have "\<lfloor>log 2 \<bar>r\<bar>\<rfloor> \<le> \<lfloor>log 2 \<bar>s\<bar>\<rfloor>" by (rule floor_mono)
  then show ?thesis by (simp add: ulp_exponent_def)
qed

lemma ulp_exponent_ge: "- 1074 \<le> ulp_exponent r"
  by (simp add: ulp_exponent_def)

lemma round64_le_multiple:
  "r \<le> of_int N * 2 powi ulp_exponent r \<Longrightarrow> round64 r \<le> of_int N * 2 powi ulp_exponent r"
proof -
  assume "r \<le> of_int N * 2 powi ulp_exponent r"
  then have "r / 2 powi ulp_exponent r \<le> of_int N" by (simp add: pos_divide_le_eq)
  then have "round_even (r / 2 powi ulp_exponent r) \<le> N" by (rule round_even_le)
  then have "(of_int (round_even (r / 2 powi ulp_exponent r)) :: real) \<le> of_int N" by simp
  then show ?thesis unfolding round64_def by (simp add: mult_right_mono)
qed

lemma round64_ge_multiple:
  "of_int N * 2 powi ulp_exponent r \<le> r \<Longrightarrow> of_int N * 2 powi ulp_exponent r \<le> round64 r"
proof -
  assume "of_int N * 2 powi ulp_exponent r \<le> r"
  then have "of_int N \<le> r / 2 powi ulp_exponent r" by (simp add: pos_le_divide_eq)
  then have "N \<le> round_even (r / 2 powi ulp_exponent r)" by (rule round_even_ge)
  then have "(of_int N :: real) \<le> of_int (round_even (r / 2 powi ulp_exponent r))" by simp
  then show ?thesis unfolding round64_def by (simp add: mult_right_mono)
qed

lemma round64_nonneg: "0 \<le> r \<Longrightarrow> 0 \<le> round64 r"
  using round64_ge_multiple[of 0 r] by simp

lemma round64_nonpos: "r \<le> 0 \<Longrightarrow> round64 r \<le> 0"
  using round64_le_multiple[of r 0] by simp

lemma two_powi_nat: "0 \<le> k \<Longrightarrow> (2::real) powi k = of_int (2 ^ nat k)"
  by (simp add: power_int_def)

lemma round64_mono_pos:
  assumes "0 < r" "r \<le> s"
  shows "round64 r \<le> round64 s"
proof (cases "ulp_exponent r = ulp_exponent s")
  case True
  have "r / 2 powi ulp_exponent s \<le> s / 2 powi ulp_exponent s"
    using assms by (simp add: divide_right_mono)
  then have "round_even (r / 2 powi ulp_exponent s) \<le> round_even (s / 2 powi ulp_exponent s)"
    by (rule round_even_mono)
  then have "(of_int (round_even (r / 2 powi ulp_exponent s)) :: real)
      \<le> of_int (round_even (s / 2 powi ulp_exponent s))" by simp
  then show ?thesis unfolding round64_def True by (simp add: mult_right_mono)
next
  case False
  define er where "er = \<lfloor>log 2 \<bar>r\<bar>\<rfloor>"
  define es where "es = \<lfloor>log 2 \<bar>s\<bar>\<rfloor>"
  have "ulp_exponent r \<le> ulp_exponent s" using assms by (intro ulp_exponent_mono) simp_all
  with False have lt: "ulp_exponent r < ulp_exponent s" by simp
  have ur: "ulp_exponent r = max er (- 1022) - 52" by (simp add: ulp_exponent_def er_def)
  have us: "ulp_exponent s = max es (- 1022) - 52" by (simp add: ulp_exponent_def es_def)
  have es: "max er (- 1022) < es" "ulp_exponent s = es - 52"
    using lt unfolding ur us by (simp_all add: max_def split: if_splits)
  have rb: "\<bar>r\<bar> < 2 powi (er + 1)" using log2_bounds[of r] assms by (simp add: er_def)
  have sb: "2 powi es \<le> \<bar>s\<bar>" using log2_bounds[of s] assms by (simp add: es_def)
  define F :: real where "F = 2 powi (max er (- 1022) + 1)"
  have "(2::real) powi (er + 1) \<le> F" unfolding F_def by (rule power_int_increasing) simp_all
  with rb assms have rF: "r \<le> F" by simp
  have F1: "F = of_int (2 ^ 53) * 2 powi ulp_exponent r"
  proof -
    have "max er (- 1022) + 1 = 53 + ulp_exponent r" by (simp add: ur)
    then have "(2::real) powi (max er (- 1022) + 1) = 2 powi (53 + ulp_exponent r)"
      by (rule arg_cong)
    also have "\<dots> = 2 powi 53 * 2 powi ulp_exponent r" by (simp add: power_int_add)
    finally show ?thesis by (simp add: F_def)
  qed
  have a: "round64 r \<le> F" using round64_le_multiple[of r "2 ^ 53"] rF unfolding F1 .
  have "max er (- 1022) + 1 \<le> es" using es(1) by linarith
  then have Fs: "F \<le> 2 powi es" unfolding F_def by (intro power_int_increasing) simp_all
  have S1: "(2::real) powi es = of_int (2 ^ 52) * 2 powi ulp_exponent s"
  proof -
    have "es = 52 + ulp_exponent s" by (simp add: es)
    then have "(2::real) powi es = 2 powi (52 + ulp_exponent s)" by (rule arg_cong)
    also have "\<dots> = 2 powi 52 * 2 powi ulp_exponent s" by (simp add: power_int_add)
    finally show ?thesis by simp
  qed
  have s2: "2 powi es \<le> s" using sb assms by simp
  have b: "2 powi es \<le> round64 s" using round64_ge_multiple[of "2 ^ 52" s] s2 unfolding S1 .
  from a Fs b show ?thesis by linarith
qed

lemma round64_mono: "r \<le> s \<Longrightarrow> round64 r \<le> round64 s"
proof -
  assume le: "r \<le> s"
  consider "0 < r" | "r \<le> 0" "0 \<le> s" | "s < 0" by linarith
  then show ?thesis
  proof cases
    case 1
    then show ?thesis using le by (rule round64_mono_pos)
  next
    case 2
    then show ?thesis using round64_nonpos[of r] round64_nonneg[of s] by linarith
  next
    case 3
    then have "round64 (- s) \<le> round64 (- r)" using le by (intro round64_mono_pos) simp_all
    then show ?thesis by (simp add: round64_neg)
  qed
qed

lemma round64_representable_aux:
  assumes "\<bar>m\<bar> < 2 ^ 53" "- 1074 \<le> j"
  shows "round64 (of_int m * 2 powi j) = of_int m * 2 powi j"
proof (cases "m = 0")
  case True
  then show ?thesis by simp
next
  case False
  define r :: real where "r = of_int m * 2 powi j"
  have r0: "r \<noteq> 0" using False by (simp add: r_def)
  define e where "e = \<lfloor>log 2 \<bar>r\<bar>\<rfloor>"
  have "\<bar>r\<bar> = of_int \<bar>m\<bar> * 2 powi j" by (simp add: r_def abs_mult)
  also have "\<dots> < of_int (2 ^ 53) * 2 powi j"
  proof (rule mult_strict_right_mono)
    show "real_of_int \<bar>m\<bar> < real_of_int (2 ^ 53)" using assms(1) by (simp only: of_int_less_iff)
    show "0 < (2::real) powi j" by simp
  qed
  also have "\<dots> = 2 powi (53 + j)" by (simp add: power_int_add)
  finally have "\<bar>r\<bar> < 2 powi (53 + j)" .
  moreover have "2 powi e \<le> \<bar>r\<bar>" using log2_bounds[OF r0] by (simp add: e_def)
  ultimately have "(2::real) powi e < 2 powi (53 + j)" by linarith
  have "e < 53 + j"
  proof (rule ccontr)
    assume "\<not> e < 53 + j"
    then have "(2::real) powi (53 + j) \<le> 2 powi e" by (intro power_int_increasing) simp_all
    with \<open>(2::real) powi e < 2 powi (53 + j)\<close> show False by linarith
  qed
  then have ue: "ulp_exponent r \<le> j" using assms(2) by (simp add: ulp_exponent_def e_def)
  define k where "k = nat (j - ulp_exponent r)"
  have "r / 2 powi ulp_exponent r = of_int m * 2 powi (j - ulp_exponent r)"
    by (simp add: r_def power_int_diff)
  also have "\<dots> = of_int (m * 2 ^ k)" using ue by (simp add: two_powi_nat k_def)
  finally have q: "r / 2 powi ulp_exponent r = of_int (m * 2 ^ k)" .
  have "round64 r = of_int (m * 2 ^ k) * 2 powi ulp_exponent r"
    unfolding round64_def q round_even_of_int ..
  also have "\<dots> = r / 2 powi ulp_exponent r * 2 powi ulp_exponent r" unfolding q ..
  also have "\<dots> = r" by simp
  finally show ?thesis by (simp add: r_def)
qed

lemma round64_representable:
  assumes "\<bar>m\<bar> \<le> 2 ^ 53" "- 1074 \<le> j"
  shows "round64 (of_int m * 2 powi j) = of_int m * 2 powi j"
proof (cases "\<bar>m\<bar> < 2 ^ 53")
  case True
  then show ?thesis using assms(2) by (rule round64_representable_aux)
next
  case False
  with assms have "\<bar>m\<bar> = 2 ^ 53" by simp
  then consider "m = 2 ^ 53" | "m = - (2 ^ 53)" by linarith
  then show ?thesis
  proof cases
    case 1
    have "of_int m * 2 powi j = of_int (2 ^ 52) * (2::real) powi (j + 1)"
      by (simp add: 1 power_int_add)
    then show ?thesis using round64_representable_aux[of "2 ^ 52" "j + 1"] assms(2) by simp
  next
    case 2
    have "of_int m * 2 powi j = of_int (- (2 ^ 52)) * (2::real) powi (j + 1)"
      by (simp add: 2 power_int_add)
    then show ?thesis using round64_representable_aux[of "- (2 ^ 52)" "j + 1"] assms(2) by simp
  qed
qed

lemma mantissa_bound: "\<bar>round_even (r / 2 powi ulp_exponent r)\<bar> \<le> 2 ^ 53"
proof (cases "r = 0")
  case True
  then show ?thesis by simp
next
  case False
  define e where "e = \<lfloor>log 2 \<bar>r\<bar>\<rfloor>"
  have "\<bar>r\<bar> < 2 powi (e + 1)" using log2_bounds[OF False] by (simp add: e_def)
  also have "\<dots> \<le> 2 powi (53 + ulp_exponent r)"
    by (rule power_int_increasing) (simp_all add: ulp_exponent_def e_def)
  also have "\<dots> = 2 ^ 53 * 2 powi ulp_exponent r" by (simp add: power_int_add)
  finally have b: "\<bar>r\<bar> \<le> 2 ^ 53 * 2 powi ulp_exponent r" by simp
  then have "r / 2 powi ulp_exponent r \<le> of_int (2 ^ 53)"
    by (simp add: pos_divide_le_eq)
  then have up: "round_even (r / 2 powi ulp_exponent r) \<le> 2 ^ 53" by (rule round_even_le)
  from b have "of_int (- (2 ^ 53)) \<le> r / 2 powi ulp_exponent r"
    by (simp add: pos_le_divide_eq)
  then have "- (2 ^ 53) \<le> round_even (r / 2 powi ulp_exponent r)" by (rule round_even_ge)
  with up show ?thesis by simp
qed

lemma round64_idem [simp]: "round64 (round64 r) = round64 r"
  unfolding round64_def[of r]
  by (rule round64_representable[OF mantissa_bound ulp_exponent_ge])



subsection \<open>The finite float64s\<close>

lemma float64I:
  "\<bar>m\<bar> \<le> 2 ^ 53 \<Longrightarrow> - 1074 \<le> j \<Longrightarrow> \<bar>of_int m * (2::real) powi j\<bar> < 2 ^ 1024
     \<Longrightarrow> float64 (of_int m * 2 powi j)"
  by (simp add: float64_def round64_representable)

lemma float64_0 [simp]: "float64 0"
  by (simp add: float64_def)

lemma float64_1 [simp]: "float64 1"
  using float64I[of 1 0] by simp

lemma float64_2 [simp]: "float64 2"
  using float64I[of 2 0] by simp

lemma float64_half [simp]: "float64 (1/2)"
  using float64I[of 1 "- 1"] by (simp add: power_int_minus)

lemma float64_neg [simp]: "float64 (- r) = float64 r"
  by (auto simp: float64_def round64_neg)

lemma float64_round64: "\<bar>round64 r\<bar> < 2 ^ 1024 \<Longrightarrow> float64 (round64 r)"
  by (simp add: float64_def)

lemma np_fin_float64: "float64 r \<Longrightarrow> np_fin r = Fin r"
  by (auto simp: float64_def np_fin_def Let_def)


lemma np_fin_0 [simp]: "np_fin 0 = Fin 0"
  by (simp add: np_fin_float64)

lemma np_fin_1 [simp]: "np_fin 1 = Fin 1"
  by (simp add: np_fin_float64)

lemma np_fin_2 [simp]: "np_fin 2 = Fin 2"
  by (simp add: np_fin_float64)

lemma np_fin_half [simp]: "np_fin (1/2) = Fin (1/2)"
  by (simp add: np_fin_float64)

lemma np_fin_neg: "np_fin (- r) = np_neg (np_fin r)"
  by (auto simp: np_fin_def Let_def round64_neg)

lemma round64_between:
  "float64 lo \<Longrightarrow> float64 hi \<Longrightarrow> lo \<le> r \<Longrightarrow> r \<le> hi \<Longrightarrow> lo \<le> round64 r \<and> round64 r \<le> hi"
  using round64_mono[of lo r] round64_mono[of r hi] by (simp add: float64_def)

lemma np_fin_between:
  assumes "float64 lo" "float64 hi" "lo \<le> r" "r \<le> hi"
  shows "\<exists>v. np_fin r = Fin v \<and> float64 v \<and> lo \<le> v \<and> v \<le> hi"
proof -
  have b: "lo \<le> round64 r" "round64 r \<le> hi" using round64_between[OF assms] by simp_all
  have "\<bar>lo\<bar> < 2 ^ 1024" "\<bar>hi\<bar> < 2 ^ 1024" using assms by (simp_all add: float64_def)
  with b have r: "\<bar>round64 r\<bar> < 2 ^ 1024" by linarith
  then have "np_fin r = Fin (round64 r)" by (auto simp: np_fin_def Let_def)
  with b r show ?thesis by (simp add: float64_round64)
qed

subsection \<open>Unpacking the parameter vector\<close>

lemma Time_unpack_Inr:
  "Time_unpack x = Inr l \<Longrightarrow>
   \<exists>v0 v1 v2 v3. x = [v0, v1, v2, v3] \<and>
      l = [(''a_1'', v0), (''ut'', v1), (''st'', v2), (''a_0'', v3)]"
  by (auto simp: Time_unpack_def split: list.splits)

lemma Time_unpack_Inl: "length x \<noteq> 4 \<Longrightarrow> Time_unpack x = Inl ValueError"
  by (auto simp: Time_unpack_def split: list.splits)

lemma CatSetTime_unpack_Inr:
  "CatSetTime_unpack x = Inr l \<Longrightarrow>
   5 \<le> length x \<and>
   l = [(''ut'', x ! 0), (''st'', x ! 1), (''a_0'', x ! 2), (''a_1'', x ! 3), (''a_2'', x ! 4)]"
  by (auto simp: CatSetTime_unpack_def bind_err_def getitem_def split: if_splits)

lemma CatSetTime_unpack_Inl: "length x < 5 \<Longrightarrow> CatSetTime_unpack x = Inl IndexError"
  by (auto simp: CatSetTime_unpack_def bind_err_def getitem_def)

lemma take_five: "5 \<le> length x \<Longrightarrow> take 5 x = [x ! 0, x ! 1, x ! 2, x ! 3, x ! 4]"
  by (auto simp: eval_nat_numeral Suc_le_length_iff)

lemmas example_simps =
  example_data_def Time_init_def CatSetTime_init_def Model_init_def Model.extend_def Let_def
  np_tile_def array1_def pad_shape_def Time_model_def Time_unpack_def CatSetTime_model_def
  CatSetTime_unpack_def bind_err_def getitem_def dict_getitem_def local_var_def gaussian_def
  arr_map_def arr_binop_def broadcast_shapes_def join_dim_def broadcast_to_def np_sub_def
  eval_nat_numeral upt_rec

text \<open>
  C2. For the \<^verbatim>\<open>Time\<close> model holding the time window \<open>[0]\<close>, the parameters
  \<open>a_1 = 1\<close>, \<open>ut = 0\<close>, \<open>st = 1\<close>, \<open>a_0 = 0\<close> give the prediction \<open>[1.0]\<close>, the peak of the
  gaussian at its centre.
\<close>

theorem Time_model_peak:
  "fst (Time_model (self\<lparr>t := array1 [Fin 0]\<rparr>) [Fin 1, Fin 0, Fin 1, Fin 0])
     = Inr (array1 [Fin 1])"
  by (simp add: Time_model_def Time_unpack_def local_var_def gaussian_def arr_map_def
      array1_def np_sub_def Let_def)

text \<open>
  C3, as stated, fails: \<^verbatim>\<open>CatSetTime.model\<close> reads \<^verbatim>\<open>x[0]\<close> to \<^verbatim>\<open>x[4]\<close> and
  accepts a vector of six entries, whose last entry it never reads.
\<close>

theorem CatSetTime_model_longer_vector:
  "length [Fin 0, Fin 1, Fin 0, Fin 1, Fin 2, Fin 9]
     \<noteq> length (param_names (CatSetTime_init example_data)) \<and>
   fst (CatSetTime_model (CatSetTime_init example_data)
          [Fin 0, Fin 1, Fin 0, Fin 1, Fin 2, Fin 9])
     = Inr \<lparr>shape = [2, 1], elems = [Fin 1, Fin 2]\<rparr>"
  by (simp add: example_simps)

text \<open>
  C3, amended. A vector whose length differs from the four names of \<^verbatim>\<open>Time\<close> makes
  \<^verbatim>\<open>Time.model\<close> and \<^verbatim>\<open>Time.objective\<close> raise \<^verbatim>\<open>ValueError\<close>; a vector shorter than
  the five names of \<^verbatim>\<open>CatSetTime\<close> makes \<^verbatim>\<open>CatSetTime.model\<close> and
  \<^verbatim>\<open>CatSetTime.objective\<close> raise \<^verbatim>\<open>IndexError\<close>.
\<close>

theorem length_mismatch_raises:
  "(length x \<noteq> length (param_names (Time_init d)) \<longrightarrow>
      fst (Time_model self x) = Inl ValueError \<and>
      fst (Time_objective self x) = Inl ValueError) \<and>
   (length x < length (param_names (CatSetTime_init d)) \<longrightarrow>
      fst (CatSetTime_model cself x) = Inl IndexError \<and>
      fst (CatSetTime_objective cself x) = Inl IndexError)"
  by (simp add: Time_init_def CatSetTime_init_def Let_def Time_model_def Time_objective_def
      CatSetTime_model_def CatSetTime_objective_def Time_unpack_Inl CatSetTime_unpack_Inl
      bind_err_def)

theorem length_mismatch_raises_witness:
  "length [Fin 1, Fin 0, Fin 1] \<noteq> length (param_names (Time_init example_data)) \<and>
   fst (Time_model (Time_init example_data) [Fin 1, Fin 0, Fin 1]) = Inl ValueError \<and>
   fst (Time_objective (Time_init example_data) [Fin 1, Fin 0, Fin 1]) = Inl ValueError \<and>
   length [Fin 1, Fin 0, Fin 1] < length (param_names (CatSetTime_init example_data)) \<and>
   fst (CatSetTime_model (CatSetTime_init example_data) [Fin 1, Fin 0, Fin 1])
     = Inl IndexError \<and>
   fst (CatSetTime_objective (CatSetTime_init example_data) [Fin 1, Fin 0, Fin 1])
     = Inl IndexError"
  using length_mismatch_raises [of "[Fin 1, Fin 0, Fin 1]" example_data
      "Time_init example_data" "CatSetTime_init example_data"]
  by (simp add: Time_init_def CatSetTime_init_def Let_def)

text \<open>
  C4. Whenever the unpacking of \<open>x\<close> succeeds, it binds as many local variables as
  \<^verbatim>\<open>param_names\<close> has entries (four for \<^verbatim>\<open>Time\<close>, five for \<^verbatim>\<open>CatSetTime\<close>), the names
  bound are the entries of \<^verbatim>\<open>param_names\<close> in the same order, and the \<open>i\<close>-th name receives
  \<open>x[i]\<close>.
\<close>

theorem param_names_match_unpacking:
  "(Time_unpack x = Inr l \<longrightarrow>
      length l = length (param_names (Time_init d)) \<and> length l = 4 \<and>
      map fst l = param_names (Time_init d) \<and> map snd l = x) \<and>
   (CatSetTime_unpack x' = Inr l' \<longrightarrow>
      length l' = length (param_names (CatSetTime_init d)) \<and> length l' = 5 \<and>
      map fst l' = param_names (CatSetTime_init d) \<and>
      map snd l' = take (length (param_names (CatSetTime_init d))) x')"
proof (intro conjI impI)
  assume "Time_unpack x = Inr l"
  from Time_unpack_Inr[OF this] obtain v0 v1 v2 v3 where
    "x = [v0, v1, v2, v3]" "l = [(''a_1'', v0), (''ut'', v1), (''st'', v2), (''a_0'', v3)]"
    by blast
  then show "length l = length (param_names (Time_init d))" "length l = 4"
       "map fst l = param_names (Time_init d)" "map snd l = x"
    by (simp_all add: Time_init_def)
next
  assume "CatSetTime_unpack x' = Inr l'"
  from CatSetTime_unpack_Inr[OF this] have
    *: "5 \<le> length x'"
       "l' = [(''ut'', x' ! 0), (''st'', x' ! 1), (''a_0'', x' ! 2), (''a_1'', x' ! 3), (''a_2'', x' ! 4)]"
    by simp_all
  then show "length l' = length (param_names (CatSetTime_init d))" "length l' = 5"
       "map fst l' = param_names (CatSetTime_init d)"
    by (simp_all add: CatSetTime_init_def Let_def)
  have "length (param_names (CatSetTime_init d)) = 5"
    by (simp add: CatSetTime_init_def Let_def)
  with * show "map snd l' = take (length (param_names (CatSetTime_init d))) x'"
    by (simp only: take_five) simp
qed

theorem param_names_match_unpacking_witness:
  "Time_unpack [Fin 1, Fin 0, Fin 1, Fin 0]
     = Inr [(''a_1'', Fin 1), (''ut'', Fin 0), (''st'', Fin 1), (''a_0'', Fin 0)] \<and>
   map fst [(''a_1'', Fin 1), (''ut'', Fin 0), (''st'', Fin 1), (''a_0'', Fin 0)]
     = param_names (Time_init example_data) \<and>
   CatSetTime_unpack [Fin 0, Fin 1, Fin 0, Fin 1, Fin 2]
     = Inr [(''ut'', Fin 0), (''st'', Fin 1), (''a_0'', Fin 0), (''a_1'', Fin 1), (''a_2'', Fin 2)] \<and>
   map fst [(''ut'', Fin 0), (''st'', Fin 1), (''a_0'', Fin 0), (''a_1'', Fin 1), (''a_2'', Fin 2)]
     = param_names (CatSetTime_init example_data)"
  using param_names_match_unpacking
    [of "[Fin 1, Fin 0, Fin 1, Fin 0]"
        "[(''a_1'', Fin 1), (''ut'', Fin 0), (''st'', Fin 1), (''a_0'', Fin 0)]"
        example_data
        "[Fin 0, Fin 1, Fin 0, Fin 1, Fin 2]"
        "[(''ut'', Fin 0), (''st'', Fin 1), (''a_0'', Fin 0), (''a_1'', Fin 1), (''a_2'', Fin 2)]"]
  by (simp add: Time_unpack_def CatSetTime_unpack_def bind_err_def getitem_def
      Time_init_def CatSetTime_init_def Let_def)

text \<open>
  C8. A call of \<^verbatim>\<open>model\<close> or \<^verbatim>\<open>objective\<close>, whether it returns or raises, leaves the
  instance as it was, but for the attribute \<^verbatim>\<open>function\<close> of a \<^verbatim>\<open>Time\<close> instance: the time
  window, the spikes, \<^verbatim>\<open>param_names\<close> and the conditions are unchanged.
\<close>

theorem held_data_unchanged:
  "(\<exists>f. snd (Time_model self x) = self\<lparr>function' := f\<rparr>) \<and>
   (\<exists>f. snd (Time_objective self x) = self\<lparr>function' := f\<rparr>) \<and>
   snd (CatSetTime_model cself x) = cself \<and>
   snd (CatSetTime_objective cself x) = cself"
proof (intro conjI)
  show m: "\<exists>f. snd (Time_model self x) = self\<lparr>function' := f\<rparr>"
  proof (cases "Time_unpack x")
    case (Inl e)
    then have "snd (Time_model self x) = self\<lparr>function' := function' self\<rparr>"
      by (simp add: Time_model_def)
    then show ?thesis by blast
  next
    case (Inr l)
    then have "snd (Time_model self x)
        = self\<lparr>function' := Some (the (function' (snd (Time_model self x))))\<rparr>"
      by (simp add: Time_model_def Let_def)
    then show ?thesis by blast
  qed
  have "snd (Time_objective self x) = snd (Time_model self x)"
    by (simp add: Time_objective_def split: prod.splits sum.splits)
  with m show "\<exists>f. snd (Time_objective self x) = self\<lparr>function' := f\<rparr>" by simp
  show c: "snd (CatSetTime_model cself x) = cself"
    by (simp add: CatSetTime_model_def)
  have "snd (CatSetTime_objective cself x) = snd (CatSetTime_model cself x)"
    by (simp add: CatSetTime_objective_def split: prod.splits sum.splits)
  with c show "snd (CatSetTime_objective cself x) = cself" by simp
qed

text \<open>
  C10. When \<^verbatim>\<open>Time.model(x)\<close> returns, \<^verbatim>\<open>self.function\<close> is the value it returned; and
  \<^verbatim>\<open>Time.objective(x)\<close> leaves the instance exactly as \<^verbatim>\<open>Time.model(x)\<close> does.
\<close>

theorem function_caches_prediction:
  "snd (Time_objective self x) = snd (Time_model self x) \<and>
   (fst (Time_model self x) = Inr r \<longrightarrow> function' (snd (Time_model self x)) = Some r)"
proof
  show "snd (Time_objective self x) = snd (Time_model self x)"
    by (simp add: Time_objective_def split: prod.splits sum.splits)
  show "fst (Time_model self x) = Inr r \<longrightarrow> function' (snd (Time_model self x)) = Some r"
    by (cases "Time_unpack x") (auto simp: Time_model_def Let_def)
qed

theorem function_caches_prediction_witness:
  "fst (Time_model (Time_init example_data) [Fin 1, Fin 0, Fin 1, Fin 0]) = Inr (array1 [Fin 1]) \<and>
   function' (snd (Time_model (Time_init example_data) [Fin 1, Fin 0, Fin 1, Fin 0]))
     = Some (array1 [Fin 1]) \<and>
   snd (Time_objective (Time_init example_data) [Fin 1, Fin 0, Fin 1, Fin 0])
     = snd (Time_model (Time_init example_data) [Fin 1, Fin 0, Fin 1, Fin 0])"
  using function_caches_prediction
    [of "Time_init example_data" "[Fin 1, Fin 0, Fin 1, Fin 0]" "array1 [Fin 1]"]
  by (simp add: example_simps)

subsection \<open>What a call does to the instance\<close>

lemma Time_objective_state: "snd (Time_objective self x) = snd (Time_model self x)"
  by (simp add: Time_objective_def split: prod.splits sum.splits)

lemma Time_model_state: "\<exists>f. snd (Time_model self x) = self\<lparr>function' := f\<rparr>"
proof (cases "Time_unpack x")
  case (Inl e)
  then have "snd (Time_model self x) = self\<lparr>function' := function' self\<rparr>"
    by (simp add: Time_model_def)
  then show ?thesis by blast
next
  case (Inr l)
  then have "snd (Time_model self x)
      = self\<lparr>function' := Some (the (function' (snd (Time_model self x))))\<rparr>"
    by (simp add: Time_model_def Let_def)
  then show ?thesis by blast
qed

lemma CatSetTime_model_state: "snd (CatSetTime_model self x) = self"
  by (simp add: CatSetTime_model_def)

lemma CatSetTime_objective_state: "snd (CatSetTime_objective self x) = self"
  by (simp add: CatSetTime_objective_def CatSetTime_model_def split: prod.splits sum.splits)

lemma Time_model_ignores_function:
  "fst (Time_model (self\<lparr>function' := f\<rparr>) x) = fst (Time_model self x)"
  by (cases "Time_unpack x") (simp_all add: Time_model_def Let_def)

lemma Time_objective_result:
  "fst (Time_objective self x) =
     (case fst (Time_model self x) of Inl e \<Rightarrow> Inl e | Inr fn \<Rightarrow> objective_sum (spikes self) fn)"
proof -
  obtain f where "snd (Time_model self x) = self\<lparr>function' := f\<rparr>"
    using Time_model_state by blast
  then have "spikes (snd (Time_model self x)) = spikes self" by simp
  then show ?thesis
    by (cases "Time_model self x") (auto simp: Time_objective_def split: sum.splits)
qed

lemma Time_objective_ignores_function:
  "fst (Time_objective (self\<lparr>function' := f\<rparr>) x) = fst (Time_objective self x)"
  by (simp add: Time_objective_result Time_model_ignores_function cong: sum.case_cong)

lemma Time_calls_state: "\<exists>f. Time_calls self cs = self\<lparr>function' := f\<rparr>"
proof (induction self cs rule: Time_calls.induct)
  case (1 self)
  have "self = self\<lparr>function' := function' self\<rparr>" by simp
  then show ?case by (metis Time_calls.simps(1))
next
  case (2 self x cs)
  obtain f where f: "snd (Time_model self x) = self\<lparr>function' := f\<rparr>"
    using Time_model_state by blast
  from 2 obtain g where "Time_calls (snd (Time_model self x)) cs = snd (Time_model self x)\<lparr>function' := g\<rparr>"
    by blast
  with f have "Time_calls self (Model_call x # cs) = self\<lparr>function' := g\<rparr>" by simp
  then show ?case by blast
next
  case (3 self x cs)
  obtain f where f: "snd (Time_objective self x) = self\<lparr>function' := f\<rparr>"
    using Time_model_state Time_objective_state by metis
  from 3 obtain g where "Time_calls (snd (Time_objective self x)) cs = snd (Time_objective self x)\<lparr>function' := g\<rparr>"
    by blast
  with f have "Time_calls self (Objective_call x # cs) = self\<lparr>function' := g\<rparr>" by simp
  then show ?case by blast
qed

lemma CatSetTime_calls_state: "CatSetTime_calls self cs = self"
  by (induction self cs rule: CatSetTime_calls.induct)
     (simp_all add: CatSetTime_model_state CatSetTime_objective_state)

subsection \<open>Broadcasting\<close>

lemma expand_map: "expand ds es (map f xs) = map f (expand ds es xs)"
proof (induction ds es xs rule: expand.induct)
  case (1 d ds e es xs)
  show ?case
  proof (cases "e = d")
    case True
    have meq: "map (\<lambda>i. expand ds es (take (prod_list es) (drop (i * prod_list es) (map f xs)))) [0..<d]
        = map (\<lambda>i. map f (expand ds es (take (prod_list es) (drop (i * prod_list es) xs)))) [0..<d]"
    proof (rule map_cong[OF refl])
      fix i assume "i \<in> set [0..<d]"
      from 1(1)[OF True this] show
        "expand ds es (take (prod_list es) (drop (i * prod_list es) (map f xs)))
          = map f (expand ds es (take (prod_list es) (drop (i * prod_list es) xs)))"
        by (simp add: take_map drop_map)
    qed
    have "expand (d # ds) (e # es) (map f xs)
        = concat (map (\<lambda>i. expand ds es (take (prod_list es) (drop (i * prod_list es) (map f xs)))) [0..<d])"
      using True by simp
    also have "\<dots> = concat (map (\<lambda>i. map f (expand ds es (take (prod_list es) (drop (i * prod_list es) xs)))) [0..<d])"
      by (simp only: meq)
    also have "\<dots> = map f (expand (d # ds) (e # es) xs)"
      using True by (simp add: map_concat comp_def)
    finally show ?thesis .
  next
    case False
    with 1(2) show ?thesis by (simp add: map_concat)
  qed
qed simp_all

lemma set_expand: "set (expand ds es xs) \<subseteq> set xs"
proof (induction ds es xs rule: expand.induct)
  case (1 d ds e es xs)
  show ?case
  proof (cases "e = d")
    case True
    have "set (expand ds es (take (prod_list es) (drop (i * prod_list es) xs))) \<subseteq> set xs"
      if "i < d" for i
    proof -
      have "set (expand ds es (take (prod_list es) (drop (i * prod_list es) xs)))
              \<subseteq> set (take (prod_list es) (drop (i * prod_list es) xs))"
        using 1(1)[OF True] that by simp
      also have "\<dots> \<subseteq> set xs"
        by (meson set_take_subset set_drop_subset subset_trans)
      finally show ?thesis .
    qed
    then have "\<forall>i\<in>set [0..<d].
        set (expand ds es (take (prod_list es) (drop (i * prod_list es) xs))) \<subseteq> set xs"
      by simp
    then have "set (concat (map (\<lambda>i. expand ds es (take (prod_list es) (drop (i * prod_list es) xs))) [0..<d]))
        \<subseteq> set xs"
      unfolding set_concat set_map by blast
    with True show ?thesis by simp
  next
    case False
    with 1(2) show ?thesis by auto
  qed
qed simp_all

lemma concat_chunks_take:
  "d * n \<le> length xs \<Longrightarrow> concat (map (\<lambda>i. take n (drop (i * n) xs)) [0..<d]) = take (d * n) xs"
proof (induction d)
  case 0
  then show ?case by simp
next
  case (Suc d)
  then have "concat (map (\<lambda>i. take n (drop (i * n) xs)) [0..<d]) = take (d * n) xs" by simp
  moreover have "take (Suc d * n) xs = take (d * n) xs @ take n (drop (d * n) xs)"
    using take_add[of "d * n" n xs] by (simp add: add.commute)
  ultimately show ?case by simp
qed

lemma concat_chunks: "length xs = d * n \<Longrightarrow> concat (map (\<lambda>i. take n (drop (i * n) xs)) [0..<d]) = xs"
  by (simp add: concat_chunks_take)

lemma length_chunk: "i < d \<Longrightarrow> length xs = d * n \<Longrightarrow> length (take n (drop (i * n) xs)) = n"
proof -
  assume a: "i < d" "length xs = d * n"
  then have "Suc i * n \<le> d * n" by (metis Suc_leI mult_le_mono1)
  then have "i * n + n \<le> length xs" using a by simp
  then show ?thesis by simp
qed

lemma length_expand:
  "compat ds es \<Longrightarrow> length xs = prod_list es \<Longrightarrow> length (expand ds es xs) = prod_list ds"
proof (induction ds es xs rule: expand.induct)
  case (1 d ds e es xs)
  from 1(3) have c: "compat ds es" and e: "e = d \<or> e = 1" by simp_all
  show ?case
  proof (cases "e = d")
    case True
    have "length (expand ds es (take (prod_list es) (drop (i * prod_list es) xs))) = prod_list ds"
      if "i < d" for i
      using 1(1)[OF True _ c, of i] that length_chunk[of i d xs "prod_list es"] 1(4) True by simp
    then have meq: "map (\<lambda>i. length (expand ds es (take (prod_list es) (drop (i * prod_list es) xs)))) [0..<d]
                = map (\<lambda>i. prod_list ds) [0..<d]"
      by simp
    have "length (expand (d # ds) (e # es) xs)
        = sum_list (map (\<lambda>i. length (expand ds es (take (prod_list es) (drop (i * prod_list es) xs)))) [0..<d])"
      using True by (simp add: length_concat comp_def)
    also have "\<dots> = sum_list (map (\<lambda>i. prod_list ds) [0..<d])"
      by (simp only: meq)
    also have "\<dots> = prod_list (d # ds)"
      by (simp add: sum_list_triv)
    finally show ?thesis .
  next
    case False
    with e have "e = 1" by simp
    with 1(2)[OF False c] 1(4) have "length (expand ds es xs) = prod_list ds" by simp
    with False show ?thesis by (simp add: length_concat sum_list_replicate)
  qed
qed simp_all

lemma expand_id: "length xs = prod_list ds \<Longrightarrow> expand ds ds xs = xs"
proof (induction ds arbitrary: xs)
  case Nil
  then show ?case by simp
next
  case (Cons d ds)
  have "expand ds ds (take (prod_list ds) (drop (i * prod_list ds) xs))
          = take (prod_list ds) (drop (i * prod_list ds) xs)" if "i < d" for i
    using Cons.IH[of "take (prod_list ds) (drop (i * prod_list ds) xs)"]
      length_chunk[OF that, of xs "prod_list ds"] Cons.prems by simp
  then have meq: "map (\<lambda>i. expand ds ds (take (prod_list ds) (drop (i * prod_list ds) xs))) [0..<d]
      = map (\<lambda>i. take (prod_list ds) (drop (i * prod_list ds) xs)) [0..<d]"
    by simp
  have "expand (d # ds) (d # ds) xs
      = concat (map (\<lambda>i. expand ds ds (take (prod_list ds) (drop (i * prod_list ds) xs))) [0..<d])"
    by simp
  also have "\<dots> = concat (map (\<lambda>i. take (prod_list ds) (drop (i * prod_list ds) xs)) [0..<d])"
    by (simp only: meq)
  also have "\<dots> = xs"
    using Cons.prems by (simp add: concat_chunks)
  finally show ?case .
qed

lemma length_pad_shape: "length s \<le> n \<Longrightarrow> length (pad_shape n s) = n"
  by (simp add: pad_shape_def)

lemma prod_list_pad_shape: "prod_list (pad_shape n s) = prod_list s"
  by (simp add: pad_shape_def)

lemma pad_shape_same: "pad_shape (length s) s = s"
  by (simp add: pad_shape_def)

lemma those_join_dim:
  "length ds = length es \<Longrightarrow> those (map2 join_dim ds es) = Some s \<Longrightarrow> compat s ds \<and> compat s es"
proof (induction ds es arbitrary: s rule: list_induct2)
  case Nil
  then show ?case by simp
next
  case (Cons d ds e es)
  from Cons.prems obtain j s' where j: "join_dim d e = Some j"
    and s': "those (map2 join_dim ds es) = Some s'" and s: "s = j # s'"
    by (auto split: option.splits)
  from j have "(d = j \<or> d = 1) \<and> (e = j \<or> e = 1)"
    by (auto simp: join_dim_def split: if_splits)
  with Cons.IH[OF s'] s show ?case by simp
qed

lemma broadcast_shapes_compat:
  assumes "broadcast_shapes s1 s2 = Some s"
  shows "compat s (pad_shape (length s) s1)" "compat s (pad_shape (length s) s2)"
proof -
  let ?n = "max (length s1) (length s2)"
  have l: "length (pad_shape ?n s1) = length (pad_shape ?n s2)"
    by (simp add: length_pad_shape)
  from assms have t: "those (map2 join_dim (pad_shape ?n s1) (pad_shape ?n s2)) = Some s"
    by (simp add: broadcast_shapes_def Let_def)
  from those_join_dim[OF l t] have c: "compat s (pad_shape ?n s1)" "compat s (pad_shape ?n s2)"
    by simp_all
  then have "length s = ?n" by (simp add: list_all2_lengthD length_pad_shape)
  with c show "compat s (pad_shape (length s) s1)" "compat s (pad_shape (length s) s2)"
    by simp_all
qed

lemma those_join_dim_same: "those (map2 join_dim s s) = Some s"
  by (induction s) (simp_all add: join_dim_def)

lemma broadcast_shapes_same: "broadcast_shapes s s = Some s"
  by (simp add: broadcast_shapes_def pad_shape_same those_join_dim_same)

lemma length_broadcast_to:
  assumes "broadcast_shapes (shape a) (shape b) = Some s"
  shows "wf_array a \<Longrightarrow> length (broadcast_to s a) = prod_list s"
    and "wf_array b \<Longrightarrow> length (broadcast_to s b) = prod_list s"
  using length_expand[OF broadcast_shapes_compat(1)[OF assms], of "elems a"]
        length_expand[OF broadcast_shapes_compat(2)[OF assms], of "elems b"]
  by (simp_all add: broadcast_to_def prod_list_pad_shape wf_array_def)

lemma broadcast_to_arr_map: "broadcast_to s (arr_map f a) = map f (broadcast_to s a)"
  by (simp add: broadcast_to_def arr_map_def expand_map)

lemma broadcast_to_same: "wf_array a \<Longrightarrow> broadcast_to (shape a) a = elems a"
  by (simp add: broadcast_to_def pad_shape_same expand_id wf_array_def)

subsection \<open>The cost\<close>

lemma inf_times_neg: "inf_times pos (- a) = inf_times (\<not> pos) a"
  by (auto simp: inf_times_def)

lemma np_neg_inf_times: "np_neg (inf_times pos a) = inf_times (\<not> pos) a"
  by (auto simp: inf_times_def)

lemma np_mul_neg_right: "np_mul a (np_neg b) = np_neg (np_mul a b)"
  by (cases a; cases b) (simp_all add: np_neg_inf_times inf_times_neg np_fin_neg)

lemma np_mul_neg_left: "np_mul (np_neg a) b = np_neg (np_mul a b)"
  by (cases a; cases b) (simp_all add: np_neg_inf_times inf_times_neg np_fin_neg)

lemma code_term_eq:
  "np_add (np_mul ob (np_neg (np_log p)))
          (np_mul (np_sub (Fin 1) ob) (np_neg (np_log (np_sub (Fin 1) p))))
   = bernoulli_term ob p"
  by (simp add: bernoulli_term_def np_sub_def np_mul_neg_right np_mul_neg_left)

lemma map2_nth:
  "length xs = length ys \<Longrightarrow> map2 f xs ys = map (\<lambda>i. f (xs ! i) (ys ! i)) [0..<length xs]"
  by (rule nth_equalityI) simp_all

lemma map2_fuse:
  "length xs = length ys \<Longrightarrow>
   map2 F (map2 f xs (map u ys)) (map2 g (map h xs) (map v ys))
     = map2 (\<lambda>a b. F (f a (u b)) (g (h a) (v b))) xs ys"
  by (induction xs ys rule: list_induct2) simp_all

lemma shape_arr_map [simp]: "shape (arr_map f a) = shape a"
  by (simp add: arr_map_def)

lemma elems_arr_map [simp]: "elems (arr_map f a) = map f (elems a)"
  by (simp add: arr_map_def)

lemma wf_arr_map [simp]: "wf_array (arr_map f a) = wf_array a"
  by (simp add: wf_array_def)

lemma arr_binop_same_shape:
  "wf_array a \<Longrightarrow> wf_array b \<Longrightarrow> shape a = shape b \<Longrightarrow>
   arr_binop f a b = Inr \<lparr>shape = shape a, elems = map2 f (elems a) (elems b)\<rparr>"
  using broadcast_to_same[of a] broadcast_to_same[of b]
  by (simp add: arr_binop_def broadcast_shapes_same)

lemma wf_arr_binop:
  assumes "arr_binop f a b = Inr c" "wf_array a" "wf_array b"
  shows "wf_array c"
proof -
  from assms(1) obtain s where s: "broadcast_shapes (shape a) (shape b) = Some s"
    and c: "c = \<lparr>shape = s, elems = map2 f (broadcast_to s a) (broadcast_to s b)\<rparr>"
    by (auto simp: arr_binop_def split: option.splits)
  from length_broadcast_to[OF s] assms(2,3) c show ?thesis
    by (simp add: wf_array_def)
qed

lemma objective_sum_eq:
  assumes "wf_array sp" "wf_array fn"
  shows "objective_sum sp fn = bernoulli_nll_arrays sp fn"
proof (cases "broadcast_shapes (shape sp) (shape fn)")
  case None
  then show ?thesis
    by (simp add: objective_sum_def bernoulli_nll_arrays_def arr_binop_def bind_err_def)
next
  case (Some s)
  let ?os = "broadcast_to s sp" and ?ps = "broadcast_to s fn"
  have len: "length ?os = prod_list s" "length ?ps = prod_list s"
    using length_broadcast_to[OF Some] assms by simp_all
  let ?lhs = "\<lparr>shape = s, elems = map2 np_mul ?os (map np_neg (map np_log ?ps))\<rparr>"
  let ?rhs = "\<lparr>shape = s, elems = map2 np_mul (map (np_sub (Fin 1)) ?os)
                 (map np_neg (map np_log (map (np_sub (Fin 1)) ?ps)))\<rparr>"
  have l: "arr_binop np_mul sp (arr_map np_neg (arr_map np_log fn)) = Inr ?lhs"
    using Some by (simp add: arr_binop_def broadcast_to_arr_map)
  have r: "arr_binop np_mul (arr_map (np_sub (Fin 1)) sp)
             (arr_map np_neg (arr_map np_log (arr_map (np_sub (Fin 1)) fn))) = Inr ?rhs"
    using Some by (simp add: arr_binop_def broadcast_to_arr_map)
  have "wf_array ?lhs" "wf_array ?rhs" using len by (simp_all add: wf_array_def)
  then have t: "arr_binop np_add ?lhs ?rhs
      = Inr \<lparr>shape = s, elems = map2 np_add (elems ?lhs) (elems ?rhs)\<rparr>"
    using arr_binop_same_shape[of ?lhs ?rhs np_add] by simp
  have "map2 np_add (elems ?lhs) (elems ?rhs)
      = map2 (\<lambda>a b. np_add (np_mul a (np_neg (np_log b)))
                 (np_mul (np_sub (Fin 1) a) (np_neg (np_log (np_sub (Fin 1) b))))) ?os ?ps"
    using map2_fuse[of ?os ?ps np_add np_mul "\<lambda>b. np_neg (np_log b)" np_mul "np_sub (Fin 1)"
        "\<lambda>b. np_neg (np_log (np_sub (Fin 1) b))"] len
    by (simp add: comp_def)
  also have "\<dots> = map2 bernoulli_term ?os ?ps"
    by (simp add: code_term_eq)
  also have "\<dots> = map (\<lambda>i. bernoulli_term (?os ! i) (?ps ! i)) [0..<length ?os]"
    using len by (simp add: map2_nth)
  finally have e: "map2 np_add (elems ?lhs) (elems ?rhs)
      = map (\<lambda>i. bernoulli_term (?os ! i) (?ps ! i)) [0..<length ?os]" .
  have "objective_sum sp fn = Inr (np_sum \<lparr>shape = s, elems = map2 np_add (elems ?lhs) (elems ?rhs)\<rparr>)"
    unfolding objective_sum_def l r by (simp only: bind_err_def sum.case t)
  also have "\<dots> = Inr (foldr np_add (map2 np_add (elems ?lhs) (elems ?rhs)) (Fin 0))"
    by (simp add: np_sum_def)
  also have "\<dots> = Inr (bernoulli_nll ?os ?ps)"
    by (simp only: e bernoulli_nll_def)
  finally show ?thesis using Some by (simp add: bernoulli_nll_arrays_def)
qed


lemma wf_gaussian [simp]: "wf_array (gaussian tt ut st) = wf_array tt"
  by (simp add: gaussian_def)

lemma shape_gaussian [simp]: "shape (gaussian tt ut st) = shape tt"
  by (simp add: gaussian_def)

lemma Time_model_wf:
  "fst (Time_model self x) = Inr p \<Longrightarrow> wf_array (t self) \<Longrightarrow> wf_array p"
  by (cases "Time_unpack x") (auto simp: Time_model_def Let_def)

lemma CatSetTime_model_Inr:
  assumes "fst (CatSetTime_model self x) = Inr p"
  obtains l c1 c2 term1 term2 both where
    "CatSetTime_unpack x = Inr l"
    "conditions self 1 = Some c1" "conditions self 2 = Some c2"
    "arr_binop np_mul (arr_map (np_mul (local_var l ''a_1'')) c1)
        (gaussian (t self) (local_var l ''ut'') (local_var l ''st'')) = Inr term1"
    "arr_binop np_mul (arr_map (np_mul (local_var l ''a_2'')) c2)
        (gaussian (t self) (local_var l ''ut'') (local_var l ''st'')) = Inr term2"
    "arr_binop np_add term1 term2 = Inr both"
    "p = arr_map (\<lambda>v. np_add v (local_var l ''a_0'')) both"
  using assms
  by (auto simp: CatSetTime_model_def bind_err_def dict_getitem_def
      split: sum.splits option.splits)

lemma CatSetTime_model_wf:
  assumes "fst (CatSetTime_model self x) = Inr p" "wf_CatSetTime self"
  shows "wf_array p"
proof -
  from assms(1) obtain l c1 c2 term1 term2 both where
    c: "conditions self 1 = Some c1" "conditions self 2 = Some c2"
    and t1: "arr_binop np_mul (arr_map (np_mul (local_var l ''a_1'')) c1)
        (gaussian (t self) (local_var l ''ut'') (local_var l ''st'')) = Inr term1"
    and t2: "arr_binop np_mul (arr_map (np_mul (local_var l ''a_2'')) c2)
        (gaussian (t self) (local_var l ''ut'') (local_var l ''st'')) = Inr term2"
    and b: "arr_binop np_add term1 term2 = Inr both"
    and p: "p = arr_map (\<lambda>v. np_add v (local_var l ''a_0'')) both"
    by (rule CatSetTime_model_Inr)
  from c assms(2) have "wf_array c1" "wf_array c2" "wf_array (t self)"
    by (auto simp: wf_CatSetTime_def wf_Model_def ran_def)
  then have "wf_array term1" "wf_array term2"
    using wf_arr_binop[OF t1] wf_arr_binop[OF t2] by simp_all
  then have "wf_array both" using wf_arr_binop[OF b] by simp
  with p show ?thesis by simp
qed

lemma CatSetTime_objective_result:
  "fst (CatSetTime_objective self x) =
     (case fst (CatSetTime_model self x) of Inl e \<Rightarrow> Inl e
      | Inr fn \<Rightarrow> objective_sum (spikes self) fn)"
  using CatSetTime_model_state[of self x]
  by (cases "CatSetTime_model self x") (auto simp: CatSetTime_objective_def split: sum.splits)

text \<open>
  C1. For every parameter vector \<open>x\<close> and every well-formed instance, \<^verbatim>\<open>objective(x)\<close>
  is the sum of the specification over the observed spikes and the prediction
  \<^verbatim>\<open>model(x)\<close>; it raises what \<^verbatim>\<open>model(x)\<close> raises, and \<^verbatim>\<open>ValueError\<close> when the
  spikes and the prediction have no common shape.
\<close>

theorem objective_is_bernoulli_nll:
  "(wf_Model self \<longrightarrow>
      fst (Time_objective self x)
        = bind_err (fst (Time_model self x)) (bernoulli_nll_arrays (spikes self))) \<and>
   (wf_CatSetTime cself \<longrightarrow>
      fst (CatSetTime_objective cself x')
        = bind_err (fst (CatSetTime_model cself x')) (bernoulli_nll_arrays (spikes cself)))"
proof (intro conjI impI)
  assume wf: "wf_Model self"
  show "fst (Time_objective self x)
        = bind_err (fst (Time_model self x)) (bernoulli_nll_arrays (spikes self))"
  proof (cases "fst (Time_model self x)")
    case (Inl e)
    then show ?thesis by (simp add: Time_objective_result bind_err_def)
  next
    case (Inr p)
    with wf have "wf_array p" "wf_array (spikes self)"
      using Time_model_wf by (simp_all add: wf_Model_def)
    with Inr show ?thesis
      by (simp add: Time_objective_result bind_err_def objective_sum_eq)
  qed
next
  assume wf: "wf_CatSetTime cself"
  show "fst (CatSetTime_objective cself x')
        = bind_err (fst (CatSetTime_model cself x')) (bernoulli_nll_arrays (spikes cself))"
  proof (cases "fst (CatSetTime_model cself x')")
    case (Inl e)
    then show ?thesis by (simp add: CatSetTime_objective_result bind_err_def)
  next
    case (Inr p)
    with wf have "wf_array p" "wf_array (spikes cself)"
      using CatSetTime_model_wf by (simp_all add: wf_CatSetTime_def wf_Model_def)
    with Inr show ?thesis
      by (simp add: CatSetTime_objective_result bind_err_def objective_sum_eq)
  qed
qed

lemma wf_Time_example: "wf_Model (Time_init example_data)"
  by (simp add: wf_Model_def wf_array_def Time_init_def Model_init_def example_data_def
      array1_def)

lemma wf_CatSetTime_example: "wf_CatSetTime (CatSetTime_init example_data)"
  by (auto simp: wf_CatSetTime_def wf_Model_def wf_array_def CatSetTime_init_def Model_init_def
      example_data_def array1_def Let_def Model.extend_def np_tile_def pad_shape_def ran_def
      eval_nat_numeral upt_rec split: if_splits)

theorem objective_is_bernoulli_nll_witness:
  "wf_Model (Time_init example_data) \<and>
   fst (Time_objective (Time_init example_data) [Fin 0, Fin 0, Fin 1, Fin (1/2)])
     = bind_err (fst (Time_model (Time_init example_data) [Fin 0, Fin 0, Fin 1, Fin (1/2)]))
         (bernoulli_nll_arrays (spikes (Time_init example_data))) \<and>
   wf_CatSetTime (CatSetTime_init example_data) \<and>
   fst (CatSetTime_objective (CatSetTime_init example_data) [Fin 0, Fin 1, Fin (1/2), Fin 0, Fin 0])
     = bind_err (fst (CatSetTime_model (CatSetTime_init example_data)
                        [Fin 0, Fin 1, Fin (1/2), Fin 0, Fin 0]))
         (bernoulli_nll_arrays (spikes (CatSetTime_init example_data)))"
  using objective_is_bernoulli_nll
    [of "Time_init example_data" "[Fin 0, Fin 0, Fin 1, Fin (1/2)]"
        "CatSetTime_init example_data" "[Fin 0, Fin 1, Fin (1/2), Fin 0, Fin 0]"]
    wf_Time_example wf_CatSetTime_example
  by simp

text \<open>
  C7. The result of \<^verbatim>\<open>model(x)\<close> and of \<^verbatim>\<open>objective(x)\<close>, value or exception, is the
  same after any two sequences of earlier calls on instances built from the same data:
  repeated calls agree, and no state left by earlier calls reaches the result.
\<close>

theorem results_independent_of_history:
  "fst (Time_model (Time_calls (Time_init d) cs) x)
     = fst (Time_model (Time_calls (Time_init d) cs') x) \<and>
   fst (Time_objective (Time_calls (Time_init d) cs) x)
     = fst (Time_objective (Time_calls (Time_init d) cs') x) \<and>
   fst (CatSetTime_model (CatSetTime_calls (CatSetTime_init d) cs) x)
     = fst (CatSetTime_model (CatSetTime_calls (CatSetTime_init d) cs') x) \<and>
   fst (CatSetTime_objective (CatSetTime_calls (CatSetTime_init d) cs) x)
     = fst (CatSetTime_objective (CatSetTime_calls (CatSetTime_init d) cs') x)"
proof -
  obtain f where "Time_calls (Time_init d) cs = (Time_init d)\<lparr>function' := f\<rparr>"
    using Time_calls_state by blast
  moreover obtain f' where "Time_calls (Time_init d) cs' = (Time_init d)\<lparr>function' := f'\<rparr>"
    using Time_calls_state by blast
  ultimately show ?thesis
    by (simp add: Time_model_ignores_function Time_objective_ignores_function
        CatSetTime_calls_state)
qed

subsection \<open>The pairing of amplitudes and conditions\<close>

lemma example_pairing:
  "fst (CatSetTime_model (CatSetTime_init example_data) [Fin 0, Fin 1, Fin 0, Fin 1, Fin 2])
     = Inr \<lparr>shape = [2, 1], elems = [Fin 1, Fin 2]\<rparr>"
  "fst (CatSetTime_model (swap_conditions (CatSetTime_init example_data))
          [Fin 0, Fin 1, Fin 0, Fin 1, Fin 2])
     = Inr \<lparr>shape = [2, 1], elems = [Fin 2, Fin 1]\<rparr>"
  by (simp_all add: swap_conditions_def example_simps)

text \<open>
  C6. The instance built from the small data set holds the indicators \<open>c1 = [1, 0]\<close> and
  \<open>c2 = [0, 1]\<close>, which differ across the two trials. With \<open>a_1 = 1\<close> and \<open>a_2 = 2\<close> at the
  peak of the gaussian, \<^verbatim>\<open>model\<close> returns \<open>[1, 2]\<close>: the trial of condition 1 receives
  \<open>a_1\<close> and the trial of condition 2 receives \<open>a_2\<close>. Exchanging the indicators gives
  \<open>[2, 1]\<close>, a different value, and the very value that exchanging the amplitudes gives.
\<close>

theorem amplitude_pairing_matters:
  "conditions (CatSetTime_init example_data) 1
     = Some \<lparr>shape = [2, 1], elems = [Fin 1, Fin 0]\<rparr> \<and>
   conditions (CatSetTime_init example_data) 2
     = Some \<lparr>shape = [2, 1], elems = [Fin 0, Fin 1]\<rparr> \<and>
   CatSetTime_unpack [Fin 0, Fin 1, Fin 0, Fin 1, Fin 2]
     = Inr [(''ut'', Fin 0), (''st'', Fin 1), (''a_0'', Fin 0), (''a_1'', Fin 1), (''a_2'', Fin 2)] \<and>
   fst (CatSetTime_model (CatSetTime_init example_data) [Fin 0, Fin 1, Fin 0, Fin 1, Fin 2])
     = Inr \<lparr>shape = [2, 1], elems = [Fin 1, Fin 2]\<rparr> \<and>
   fst (CatSetTime_model (swap_conditions (CatSetTime_init example_data))
          [Fin 0, Fin 1, Fin 0, Fin 1, Fin 2])
     = Inr \<lparr>shape = [2, 1], elems = [Fin 2, Fin 1]\<rparr> \<and>
   fst (CatSetTime_model (CatSetTime_init example_data) [Fin 0, Fin 1, Fin 0, Fin 2, Fin 1])
     = Inr \<lparr>shape = [2, 1], elems = [Fin 2, Fin 1]\<rparr> \<and>
   fst (CatSetTime_model (CatSetTime_init example_data) [Fin 0, Fin 1, Fin 0, Fin 1, Fin 2])
     \<noteq> fst (CatSetTime_model (swap_conditions (CatSetTime_init example_data))
            [Fin 0, Fin 1, Fin 0, Fin 1, Fin 2])"
proof (intro conjI)
  show "conditions (CatSetTime_init example_data) 1
      = Some \<lparr>shape = [2, 1], elems = [Fin 1, Fin 0]\<rparr>"
    by (simp add: example_simps)
  show "conditions (CatSetTime_init example_data) 2
      = Some \<lparr>shape = [2, 1], elems = [Fin 0, Fin 1]\<rparr>"
    by (simp add: example_simps)
  show "CatSetTime_unpack [Fin 0, Fin 1, Fin 0, Fin 1, Fin 2]
      = Inr [(''ut'', Fin 0), (''st'', Fin 1), (''a_0'', Fin 0), (''a_1'', Fin 1), (''a_2'', Fin 2)]"
    by (simp add: CatSetTime_unpack_def bind_err_def getitem_def)
  show m: "fst (CatSetTime_model (CatSetTime_init example_data) [Fin 0, Fin 1, Fin 0, Fin 1, Fin 2])
      = Inr \<lparr>shape = [2, 1], elems = [Fin 1, Fin 2]\<rparr>"
    by (rule example_pairing)
  show sw: "fst (CatSetTime_model (swap_conditions (CatSetTime_init example_data))
          [Fin 0, Fin 1, Fin 0, Fin 1, Fin 2])
      = Inr \<lparr>shape = [2, 1], elems = [Fin 2, Fin 1]\<rparr>"
    by (rule example_pairing)
  show "fst (CatSetTime_model (CatSetTime_init example_data) [Fin 0, Fin 1, Fin 0, Fin 2, Fin 1])
      = Inr \<lparr>shape = [2, 1], elems = [Fin 2, Fin 1]\<rparr>"
    by (simp add: example_simps)
  show "fst (CatSetTime_model (CatSetTime_init example_data) [Fin 0, Fin 1, Fin 0, Fin 1, Fin 2])
      \<noteq> fst (CatSetTime_model (swap_conditions (CatSetTime_init example_data))
            [Fin 0, Fin 1, Fin 0, Fin 1, Fin 2])"
    unfolding m sw by simp
qed

subsection \<open>The sign of the cost\<close>




lemma float64_2048 [simp]: "float64 2048"
  using float64I[of 1 11] by simp


lemma set_broadcast_to: "set (broadcast_to s a) \<subseteq> set (elems a)"
  by (simp add: broadcast_to_def set_expand)






lemma round64_fixed: "float64 r \<Longrightarrow> round64 r = r"
  by (simp add: float64_def)











subsection \<open>Broadcasting twice, and the shape of three operands\<close>

lemma length_expand_cong:
  "length xs = length ys \<Longrightarrow> length (expand ds es xs) = length (expand ds es ys)"
proof (induction ds es xs arbitrary: ys rule: expand.induct)
  case (1 d ds e es xs)
  show ?case
  proof (cases "e = d")
    case True
    have "map (\<lambda>i. length (expand ds es (take (prod_list es) (drop (i * prod_list es) xs)))) [0..<d]
        = map (\<lambda>i. length (expand ds es (take (prod_list es) (drop (i * prod_list es) ys)))) [0..<d]"
    proof (rule map_cong[OF refl])
      fix i assume i: "i \<in> set [0..<d]"
      show "length (expand ds es (take (prod_list es) (drop (i * prod_list es) xs)))
          = length (expand ds es (take (prod_list es) (drop (i * prod_list es) ys)))"
        by (rule 1(1)[OF True i]) (simp add: 1(3))
    qed
    then have "sum_list (map (\<lambda>i. length (expand ds es (take (prod_list es) (drop (i * prod_list es) xs)))) [0..<d])
        = sum_list (map (\<lambda>i. length (expand ds es (take (prod_list es) (drop (i * prod_list es) ys)))) [0..<d])"
      by (rule arg_cong)
    then show ?thesis using True by (simp add: length_concat comp_def)
  next
    case False
    then show ?thesis using 1(2)[OF False 1(3)] by (simp add: length_concat)
  qed
qed simp_all

lemma concat_map_zip:
  "(\<And>i. i \<in> set is \<Longrightarrow> length (f i) = length (g i)) \<Longrightarrow>
   concat (map (\<lambda>i. zip (f i) (g i)) is) = zip (concat (map f is)) (concat (map g is))"
  by (induction "is") (simp_all add: zip_append)

lemma concat_replicate_zip:
  "length a = length b \<Longrightarrow>
   concat (replicate d (zip a b)) = zip (concat (replicate d a)) (concat (replicate d b))"
  by (induction d) (simp_all add: zip_append)

lemma expand_zip:
  "length xs = length ys \<Longrightarrow> expand ds es (zip xs ys) = zip (expand ds es xs) (expand ds es ys)"
proof (induction ds es xs arbitrary: ys rule: expand.induct)
  case (1 d ds e es xs)
  let ?n = "prod_list es"
  show ?case
  proof (cases "e = d")
    case True
    have meq: "map (\<lambda>i. expand ds es (take ?n (drop (i * ?n) (zip xs ys)))) [0..<d]
        = map (\<lambda>i. zip (expand ds es (take ?n (drop (i * ?n) xs)))
                       (expand ds es (take ?n (drop (i * ?n) ys)))) [0..<d]"
    proof (rule map_cong[OF refl])
      fix i assume i: "i \<in> set [0..<d]"
      have "expand ds es (zip (take ?n (drop (i * ?n) xs)) (take ?n (drop (i * ?n) ys)))
          = zip (expand ds es (take ?n (drop (i * ?n) xs))) (expand ds es (take ?n (drop (i * ?n) ys)))"
        by (rule 1(1)[OF True i]) (simp add: 1(3))
      then show "expand ds es (take ?n (drop (i * ?n) (zip xs ys)))
          = zip (expand ds es (take ?n (drop (i * ?n) xs))) (expand ds es (take ?n (drop (i * ?n) ys)))"
        by (simp add: take_zip drop_zip)
    qed
    have "expand (d # ds) (e # es) (zip xs ys)
        = concat (map (\<lambda>i. expand ds es (take ?n (drop (i * ?n) (zip xs ys)))) [0..<d])"
      using True by simp
    also have "\<dots> = concat (map (\<lambda>i. zip (expand ds es (take ?n (drop (i * ?n) xs)))
                       (expand ds es (take ?n (drop (i * ?n) ys)))) [0..<d])"
      by (simp only: meq)
    also have "\<dots> = zip (concat (map (\<lambda>i. expand ds es (take ?n (drop (i * ?n) xs))) [0..<d]))
                        (concat (map (\<lambda>i. expand ds es (take ?n (drop (i * ?n) ys))) [0..<d]))"
      by (rule concat_map_zip) (rule length_expand_cong, simp add: 1(3))
    also have "\<dots> = zip (expand (d # ds) (e # es) xs) (expand (d # ds) (e # es) ys)"
      using True by simp
    finally show ?thesis .
  next
    case False
    have "length (expand ds es xs) = length (expand ds es ys)"
      by (rule length_expand_cong) (rule 1(3))
    then show ?thesis
      using False 1(2)[OF False 1(3)] by (simp add: concat_replicate_zip)
  qed
qed simp_all

lemma expand_map2:
  "length xs = length ys \<Longrightarrow>
   expand ds es (map2 f xs ys) = map2 f (expand ds es xs) (expand ds es ys)"
  by (simp add: expand_map expand_zip)


lemma chunk_concat:
  "j < d \<Longrightarrow> (\<And>i. i < d \<Longrightarrow> length (g i) = n) \<Longrightarrow>
   take n (drop (j * n) (concat (map g [0..<d]))) = g j"
proof (induction d)
  case 0
  then show ?case by simp
next
  case (Suc d)
  have "map (\<lambda>i. length (g i)) [0..<d] = map (\<lambda>i. n) [0..<d]"
    by (rule map_cong[OF refl]) (simp add: Suc.prems(2))
  then have "sum_list (map (\<lambda>i. length (g i)) [0..<d]) = sum_list (map (\<lambda>i. n) [0..<d])"
    by (rule arg_cong)
  then have len: "length (concat (map g [0..<d])) = d * n"
    by (simp add: length_concat comp_def sum_list_triv)
  show ?case
  proof (cases "j < d")
    case True
    then have "Suc j * n \<le> d * n" by (metis Suc_leI mult_le_mono1)
    then have "j * n + n \<le> length (concat (map g [0..<d]))" using len by simp
    then have "take n (drop (j * n) (concat (map g [0..<d]) @ g d))
        = take n (drop (j * n) (concat (map g [0..<d])))"
      by simp
    with Suc.IH[OF True] Suc.prems(2) show ?thesis by simp
  next
    case False
    with Suc.prems(1) have "j = d" by simp
    with len Suc.prems(2)[of d] show ?thesis by simp
  qed
qed

lemma chunk_replicate:
  "j < d \<Longrightarrow> length ys = n \<Longrightarrow> take n (drop (j * n) (concat (replicate d ys))) = ys"
  using chunk_concat[of j d "\<lambda>_. ys" n] by (simp add: map_replicate_const)

lemma expand_expand:
  "compat ds es \<Longrightarrow> compat es fs \<Longrightarrow> length xs = prod_list fs \<Longrightarrow>
   expand ds es (expand es fs xs) = expand ds fs xs"
proof (induction ds arbitrary: es fs xs)
  case Nil
  then show ?case by simp
next
  case (Cons d ds es0 fs0)
  from Cons.prems(1) obtain e es where es0: "es0 = e # es" and de: "e = d \<or> e = 1"
    and c1: "compat ds es"
    by (auto simp: list_all2_Cons1)
  from Cons.prems(2) es0 obtain f fs where fs0: "fs0 = f # fs" and ef: "f = e \<or> f = 1"
    and c2: "compat es fs"
    by (auto simp: list_all2_Cons1)
  let ?nf = "prod_list fs" and ?ne = "prod_list es"
  from Cons.prems(3) fs0 have lx: "length xs = f * ?nf" by simp
  let ?inner = "expand (e # es) (f # fs) xs"
  show ?case
  proof (cases "f = e")
    case fe: True
    let ?g = "\<lambda>i. expand es fs (take ?nf (drop (i * ?nf) xs))"
    have inner: "?inner = concat (map ?g [0..<e])" using fe by simp
    have lg: "length (?g i) = ?ne" if "i < e" for i
      using length_expand[OF c2, of "take ?nf (drop (i * ?nf) xs)"]
        length_chunk[of i e xs ?nf] that lx fe by simp
    show ?thesis
    proof (cases "e = d")
      case ed: True
      have meq: "map (\<lambda>j. expand ds es (take ?ne (drop (j * ?ne) ?inner))) [0..<d]
          = map (\<lambda>j. expand ds fs (take ?nf (drop (j * ?nf) xs))) [0..<d]"
      proof (rule map_cong[OF refl])
        fix j assume "j \<in> set [0..<d]"
        then have j: "j < e" using ed by simp
        have "take ?ne (drop (j * ?ne) ?inner) = ?g j"
          unfolding inner using chunk_concat[of j e ?g ?ne] j lg by simp
        moreover have "expand ds es (?g j) = expand ds fs (take ?nf (drop (j * ?nf) xs))"
          using Cons.IH[OF c1 c2, of "take ?nf (drop (j * ?nf) xs)"]
            length_chunk[of j e xs ?nf] j lx fe by simp
        ultimately show "expand ds es (take ?ne (drop (j * ?ne) ?inner))
            = expand ds fs (take ?nf (drop (j * ?nf) xs))"
          by simp
      qed
      have "expand (d # ds) (e # es) ?inner
          = concat (map (\<lambda>j. expand ds es (take ?ne (drop (j * ?ne) ?inner))) [0..<d])"
        using ed by simp
      also have "\<dots> = concat (map (\<lambda>j. expand ds fs (take ?nf (drop (j * ?nf) xs))) [0..<d])"
        by (simp only: meq)
      also have "\<dots> = expand (d # ds) (f # fs) xs"
        using ed fe by simp
      finally show ?thesis using es0 fs0 by simp
    next
      case ned: False
      with de fe have e1: "e = 1" "f = 1" by simp_all
      with lx have "?inner = expand es fs xs" by simp
      moreover have "expand ds es (expand es fs xs) = expand ds fs xs"
        using Cons.IH[OF c1 c2, of xs] lx e1 by simp
      ultimately show ?thesis using es0 fs0 ned e1 by simp
    qed
  next
    case nfe: False
    with ef have f1: "f = 1" by simp
    let ?y = "expand es fs xs"
    have ly: "length ?y = ?ne"
      using length_expand[OF c2, of xs] lx f1 by simp
    have inner: "?inner = concat (replicate e ?y)" using nfe by simp
    have ih: "expand ds es ?y = expand ds fs xs"
      using Cons.IH[OF c1 c2, of xs] lx f1 by simp
    from nfe f1 de have ed: "e = d" by auto
    have meq: "map (\<lambda>j. expand ds es (take ?ne (drop (j * ?ne) ?inner))) [0..<d]
        = map (\<lambda>j. expand ds fs xs) [0..<d]"
    proof (rule map_cong[OF refl])
      fix j assume "j \<in> set [0..<d]"
      then have j: "j < e" using ed by simp
      have "take ?ne (drop (j * ?ne) ?inner) = ?y"
        unfolding inner using chunk_replicate[OF j ly] by simp
      with ih show "expand ds es (take ?ne (drop (j * ?ne) ?inner)) = expand ds fs xs"
        by simp
    qed
    have "expand (d # ds) (e # es) ?inner
        = concat (map (\<lambda>j. expand ds es (take ?ne (drop (j * ?ne) ?inner))) [0..<d])"
      using ed by simp
    also have "\<dots> = concat (map (\<lambda>j. expand ds fs xs) [0..<d])"
      by (simp only: meq)
    also have "\<dots> = concat (replicate d (expand ds fs xs))"
      by (simp add: map_replicate_const)
    also have "\<dots> = expand (d # ds) (f # fs) xs"
      using nfe ed by simp
    finally show ?thesis using es0 fs0 by simp
  qed
qed


lemma expand_leading_ones:
  "length xs = prod_list es \<Longrightarrow>
   expand (replicate k 1 @ ds) (replicate k 1 @ es) xs = expand ds es xs"
  by (induction k) simp_all

lemma compat_leading_ones:
  "compat ds es \<Longrightarrow> compat (replicate k 1 @ ds) (replicate k 1 @ es)"
  by (induction k) simp_all

lemma pad_shape_pad:
  "length s \<le> m \<Longrightarrow> m \<le> n \<Longrightarrow> pad_shape n s = replicate (n - m) 1 @ pad_shape m s"
proof -
  assume a: "length s \<le> m" "m \<le> n"
  then have "n - length s = (n - m) + (m - length s)" by simp
  then show ?thesis by (simp add: pad_shape_def replicate_add)
qed

lemma length_broadcast_shapes:
  assumes "broadcast_shapes s1 s2 = Some s"
  shows "length s = max (length s1) (length s2)"
proof -
  let ?n = "max (length s1) (length s2)"
  have l: "length (pad_shape ?n s1) = length (pad_shape ?n s2)"
    by (simp add: length_pad_shape)
  from assms have t: "those (map2 join_dim (pad_shape ?n s1) (pad_shape ?n s2)) = Some s"
    by (simp add: broadcast_shapes_def Let_def)
  from those_join_dim[OF l t] have "compat s (pad_shape ?n s1)" by simp
  then have "length s = length (pad_shape ?n s1)" by (rule list_all2_lengthD)
  then show ?thesis by (simp add: length_pad_shape)
qed

lemma broadcast_to_broadcast:
  assumes c1: "compat s1 (pad_shape (length s1) (shape a))" and l1: "length (shape a) \<le> length s1"
    and c2: "compat s (pad_shape (length s) s1)" and l2: "length s1 \<le> length s"
    and wf: "wf_array a"
  shows "expand s (pad_shape (length s) s1) (broadcast_to s1 a) = broadcast_to s a"
proof -
  let ?k = "length s - length s1" and ?xs = "elems a"
  let ?fa = "pad_shape (length s1) (shape a)"
  have p1: "pad_shape (length s) s1 = replicate ?k 1 @ s1"
    using pad_shape_pad[of s1 "length s1" "length s"] l2 by (simp add: pad_shape_same)
  have p2: "pad_shape (length s) (shape a) = replicate ?k 1 @ ?fa"
    using pad_shape_pad[OF l1 l2] .
  have lx: "length ?xs = prod_list ?fa"
    using wf by (simp add: wf_array_def prod_list_pad_shape)
  have "broadcast_to s1 a = expand (replicate ?k 1 @ s1) (replicate ?k 1 @ ?fa) ?xs"
    using expand_leading_ones[OF lx, of ?k s1] by (simp add: broadcast_to_def)
  then have "expand s (pad_shape (length s) s1) (broadcast_to s1 a)
      = expand s (replicate ?k 1 @ s1) (expand (replicate ?k 1 @ s1) (replicate ?k 1 @ ?fa) ?xs)"
    by (simp only: p1)
  also have "\<dots> = expand s (replicate ?k 1 @ ?fa) ?xs"
  proof (rule expand_expand)
    show "compat s (replicate ?k 1 @ s1)" using c2 by (simp only: p1)
    show "compat (replicate ?k 1 @ s1) (replicate ?k 1 @ ?fa)"
      using c1 by (rule compat_leading_ones)
    show "length ?xs = prod_list (replicate ?k 1 @ ?fa)" using lx by simp
  qed
  also have "\<dots> = broadcast_to s a" by (simp only: broadcast_to_def p2)
  finally show ?thesis .
qed

lemma those_leading_ones:
  "those (map2 join_dim (replicate k 1 @ ds) (replicate k 1 @ es))
     = map_option (\<lambda>s. replicate k 1 @ s) (those (map2 join_dim ds es))"
proof (induction k)
  case 0
  show ?case by (simp add: option.map_ident)
next
  case (Suc k)
  then show ?case
    by (simp add: join_dim_def option.map_comp comp_def)
qed

lemma those_join_dim_pad:
  assumes "length s1 \<le> n" "length s2 \<le> n"
  shows "those (map2 join_dim (pad_shape n s1) (pad_shape n s2))
           = map_option (pad_shape n) (broadcast_shapes s1 s2)"
proof -
  let ?m = "max (length s1) (length s2)"
  have p: "pad_shape n s1 = replicate (n - ?m) 1 @ pad_shape ?m s1"
       "pad_shape n s2 = replicate (n - ?m) 1 @ pad_shape ?m s2"
    using assms pad_shape_pad[of s1 ?m n] pad_shape_pad[of s2 ?m n] by simp_all
  have "those (map2 join_dim (pad_shape n s1) (pad_shape n s2))
      = map_option (\<lambda>s. replicate (n - ?m) 1 @ s) (broadcast_shapes s1 s2)"
    unfolding p by (simp only: those_leading_ones broadcast_shapes_def Let_def)
  also have "\<dots> = map_option (pad_shape n) (broadcast_shapes s1 s2)"
  proof (cases "broadcast_shapes s1 s2")
    case None
    then show ?thesis by simp
  next
    case (Some s)
    from length_broadcast_shapes[OF Some] have "pad_shape n s = replicate (n - ?m) 1 @ s"
      by (simp add: pad_shape_def)
    with Some show ?thesis by simp
  qed
  finally show ?thesis .
qed

lemma join_dim_assoc:
  "(\<exists>p1 p2. join_dim a e = Some p1 \<and> join_dim b e = Some p2 \<and> join_dim p1 p2 = Some j)
     \<longleftrightarrow> (\<exists>q. join_dim a b = Some q \<and> join_dim q e = Some j)"
  unfolding join_dim_def by (cases "a = e"; cases "b = e"; cases "a = b"; cases "a = 1";
      cases "b = 1"; cases "e = 1"; simp; auto)

lemma those_Cons_Some:
  "those (x # xs) = Some s \<longleftrightarrow> (\<exists>y ys. x = Some y \<and> those xs = Some ys \<and> s = y # ys)"
  by (cases x) auto

lemma those_join_dim_assoc:
  "length as = length bs \<Longrightarrow> length bs = length es \<Longrightarrow>
   (\<exists>p1 p2. those (map2 join_dim as es) = Some p1 \<and> those (map2 join_dim bs es) = Some p2 \<and>
       those (map2 join_dim p1 p2) = Some s)
     \<longleftrightarrow> (\<exists>q. those (map2 join_dim as bs) = Some q \<and> those (map2 join_dim q es) = Some s)"
proof (induction as bs es arbitrary: s rule: list_induct3)
  case Nil
  show ?case by auto
next
  case (Cons a as b bs e es)
  show ?case (is "?L \<longleftrightarrow> ?R")
  proof
    assume ?L
    then obtain p1 p2 where p: "those (map2 join_dim (a # as) (e # es)) = Some p1"
      "those (map2 join_dim (b # bs) (e # es)) = Some p2" "those (map2 join_dim p1 p2) = Some s"
      by blast
    from p(1) obtain y1 ys1 where 1: "join_dim a e = Some y1" "those (map2 join_dim as es) = Some ys1"
      "p1 = y1 # ys1" by (auto simp: those_Cons_Some simp del: those.simps)
    from p(2) obtain y2 ys2 where 2: "join_dim b e = Some y2" "those (map2 join_dim bs es) = Some ys2"
      "p2 = y2 # ys2" by (auto simp: those_Cons_Some simp del: those.simps)
    from p(3) 1(3) 2(3) obtain j s' where 3: "join_dim y1 y2 = Some j"
      "those (map2 join_dim ys1 ys2) = Some s'" "s = j # s'"
      by (auto simp: those_Cons_Some simp del: those.simps)
    from 1(1) 2(1) 3(1) obtain q where q: "join_dim a b = Some q" "join_dim q e = Some j"
      using join_dim_assoc[of a e b j] by blast
    from 1(2) 2(2) 3(2) obtain qs where qs: "those (map2 join_dim as bs) = Some qs"
      "those (map2 join_dim qs es) = Some s'"
      using Cons.IH[of s'] by blast
    from q qs 3(3) show ?R by (auto simp: those_Cons_Some simp del: those.simps)
  next
    assume ?R
    then obtain q0 where r: "those (map2 join_dim (a # as) (b # bs)) = Some q0"
      "those (map2 join_dim q0 (e # es)) = Some s"
      by blast
    from r(1) obtain q qs where 1: "join_dim a b = Some q" "those (map2 join_dim as bs) = Some qs"
      "q0 = q # qs" by (auto simp: those_Cons_Some simp del: those.simps)
    from r(2) 1(3) obtain j s' where 2: "join_dim q e = Some j"
      "those (map2 join_dim qs es) = Some s'" "s = j # s'"
      by (auto simp: those_Cons_Some simp del: those.simps)
    from 1(1) 2(1) obtain y1 y2 where y: "join_dim a e = Some y1" "join_dim b e = Some y2"
      "join_dim y1 y2 = Some j"
      using join_dim_assoc[of a e b j] by blast
    from 1(2) 2(2) obtain ys1 ys2 where ys: "those (map2 join_dim as es) = Some ys1"
      "those (map2 join_dim bs es) = Some ys2" "those (map2 join_dim ys1 ys2) = Some s'"
      using Cons.IH[of s'] by blast
    from y ys 2(3) show ?L by (auto simp: those_Cons_Some simp del: those.simps)
  qed
qed

lemma pad_shape_full: "length s = n \<Longrightarrow> pad_shape n s = s"
  by (simp add: pad_shape_def)

lemma broadcast_shapes_assoc:
  "(\<exists>s1 s2. broadcast_shapes sa se = Some s1 \<and> broadcast_shapes sb se = Some s2 \<and>
       broadcast_shapes s1 s2 = Some s)
     \<longleftrightarrow> (\<exists>q. broadcast_shapes sa sb = Some q \<and> broadcast_shapes q se = Some s)"
  (is "?L \<longleftrightarrow> ?R")
proof -
  let ?n = "max (length sa) (max (length sb) (length se))"
  let ?a = "pad_shape ?n sa" and ?b = "pad_shape ?n sb" and ?e = "pad_shape ?n se"
  have la: "length sa \<le> ?n" and lb: "length sb \<le> ?n" and le: "length se \<le> ?n"
    by simp_all
  have len: "length ?a = length ?b" "length ?b = length ?e"
    by (simp_all add: length_pad_shape)
  have J: "(\<exists>p1 p2. those (map2 join_dim ?a ?e) = Some p1 \<and> those (map2 join_dim ?b ?e) = Some p2 \<and>
       those (map2 join_dim p1 p2) = Some s)
     \<longleftrightarrow> (\<exists>q. those (map2 join_dim ?a ?b) = Some q \<and> those (map2 join_dim q ?e) = Some s)"
    (is "?JL \<longleftrightarrow> ?JR")
    by (rule those_join_dim_assoc[OF len])
  have L: "?L \<longleftrightarrow> ?JL"
  proof
    assume ?L
    then obtain s1 s2 where s: "broadcast_shapes sa se = Some s1"
      "broadcast_shapes sb se = Some s2" "broadcast_shapes s1 s2 = Some s" by blast
    have l1: "length s1 \<le> ?n" "length s2 \<le> ?n"
      using length_broadcast_shapes[OF s(1)] length_broadcast_shapes[OF s(2)] by simp_all
    have "length s = ?n"
      using length_broadcast_shapes[OF s(1)] length_broadcast_shapes[OF s(2)]
        length_broadcast_shapes[OF s(3)] by (simp add: max_def)
    then have "pad_shape ?n s = s" by (rule pad_shape_full)
    then have "those (map2 join_dim (pad_shape ?n s1) (pad_shape ?n s2)) = Some s"
      using those_join_dim_pad[OF l1] s(3) by simp
    moreover have "those (map2 join_dim ?a ?e) = Some (pad_shape ?n s1)"
      using those_join_dim_pad[OF la le] s(1) by simp
    moreover have "those (map2 join_dim ?b ?e) = Some (pad_shape ?n s2)"
      using those_join_dim_pad[OF lb le] s(2) by simp
    ultimately show ?JL by blast
  next
    assume ?JL
    then obtain p1 p2 where p: "those (map2 join_dim ?a ?e) = Some p1"
      "those (map2 join_dim ?b ?e) = Some p2" "those (map2 join_dim p1 p2) = Some s" by blast
    from p(1) obtain s1 where s1: "broadcast_shapes sa se = Some s1" "p1 = pad_shape ?n s1"
      using those_join_dim_pad[OF la le] by auto
    from p(2) obtain s2 where s2: "broadcast_shapes sb se = Some s2" "p2 = pad_shape ?n s2"
      using those_join_dim_pad[OF lb le] by auto
    have l1: "length s1 \<le> ?n" "length s2 \<le> ?n"
      using length_broadcast_shapes[OF s1(1)] length_broadcast_shapes[OF s2(1)] by simp_all
    from p(3) s1(2) s2(2) obtain s' where s': "broadcast_shapes s1 s2 = Some s'"
      "s = pad_shape ?n s'"
      using those_join_dim_pad[OF l1] by auto
    have "length s' = ?n"
      using length_broadcast_shapes[OF s1(1)] length_broadcast_shapes[OF s2(1)]
        length_broadcast_shapes[OF s'(1)] by (simp add: max_def)
    then have "pad_shape ?n s' = s'" by (rule pad_shape_full)
    with s' s1(1) s2(1) show ?L by simp
  qed
  have R: "?R \<longleftrightarrow> ?JR"
  proof
    assume ?R
    then obtain q where q: "broadcast_shapes sa sb = Some q" "broadcast_shapes q se = Some s"
      by blast
    have lq: "length q \<le> ?n" using length_broadcast_shapes[OF q(1)] by simp
    have "length s = ?n"
      using length_broadcast_shapes[OF q(1)] length_broadcast_shapes[OF q(2)] by (simp add: max_def)
    then have "pad_shape ?n s = s" by (rule pad_shape_full)
    then have "those (map2 join_dim (pad_shape ?n q) ?e) = Some s"
      using those_join_dim_pad[OF lq le] q(2) by simp
    moreover have "those (map2 join_dim ?a ?b) = Some (pad_shape ?n q)"
      using those_join_dim_pad[OF la lb] q(1) by simp
    ultimately show ?JR by blast
  next
    assume ?JR
    then obtain q0 where q0: "those (map2 join_dim ?a ?b) = Some q0"
      "those (map2 join_dim q0 ?e) = Some s" by blast
    from q0(1) obtain q where q: "broadcast_shapes sa sb = Some q" "q0 = pad_shape ?n q"
      using those_join_dim_pad[OF la lb] by auto
    have lq: "length q \<le> ?n" using length_broadcast_shapes[OF q(1)] by simp
    from q0(2) q(2) obtain s' where s': "broadcast_shapes q se = Some s'" "s = pad_shape ?n s'"
      using those_join_dim_pad[OF lq le] by auto
    have "length s' = ?n"
      using length_broadcast_shapes[OF q(1)] length_broadcast_shapes[OF s'(1)] by (simp add: max_def)
    then have "pad_shape ?n s' = s'" by (rule pad_shape_full)
    with s' q(1) show ?R by simp
  qed
  from J L R show ?thesis by simp
qed

lemma np_fin_round64 [simp]: "np_fin (round64 r) = np_fin r"
  by (simp add: np_fin_def)

lemma np_add_np_fin_zero [simp]:
  "np_add (np_fin r) (Fin 0) = np_fin r" "np_add (Fin 0) (np_fin r) = np_fin r"
proof -
  have "np_fin r = PInf \<or> np_fin r = NInf \<or> np_fin r = Fin (round64 r)"
    by (simp add: np_fin_def Let_def)
  then show "np_add (np_fin r) (Fin 0) = np_fin r" "np_add (Fin 0) (np_fin r) = np_fin r"
    by auto
qed

lemma np_add_np_mul_zero [simp]:
  "np_add (np_mul a b) (Fin 0) = np_mul a b" "np_add (Fin 0) (np_mul a b) = np_mul a b"
  by (cases a; cases b; simp add: inf_times_def)+

lemma np_mul_zero:
  "np_mul a (Fin 0) = Fin 0 \<or> np_mul a (Fin 0) = NaN"
  by (cases a) (simp_all add: inf_times_def)

lemma np_add_NaN [simp]: "np_add a NaN = NaN"
  by (cases a) simp_all

lemma np_mul_NaN [simp]: "np_mul a NaN = NaN"
  by (cases a) simp_all

lemma zero_mul_finite:
  "e \<noteq> PInf \<Longrightarrow> e \<noteq> NInf \<Longrightarrow> np_mul (Fin 0) e = Fin 0 \<or> e = NaN"
  by (cases e) simp_all

lemma np_distrib_right_zero:
  assumes "e \<noteq> PInf" "e \<noteq> NInf"
  shows "np_add (np_mul (np_mul a u) e) (np_mul (np_mul b (Fin 0)) e)
       = np_mul (np_add (np_mul a u) (np_mul b (Fin 0))) e"
proof -
  from np_mul_zero[of b] show ?thesis
  proof
    assume z: "np_mul b (Fin 0) = Fin 0"
    from zero_mul_finite[OF assms] show ?thesis
    proof
      assume "np_mul (Fin 0) e = Fin 0"
      then show ?thesis by (simp add: z)
    next
      assume "e = NaN"
      then show ?thesis by simp
    qed
  next
    assume "np_mul b (Fin 0) = NaN"
    then show ?thesis by simp
  qed
qed

lemma np_distrib_left_zero:
  assumes "e \<noteq> PInf" "e \<noteq> NInf"
  shows "np_add (np_mul (np_mul a (Fin 0)) e) (np_mul (np_mul b v) e)
       = np_mul (np_add (np_mul a (Fin 0)) (np_mul b v)) e"
proof -
  from np_mul_zero[of a] show ?thesis
  proof
    assume z: "np_mul a (Fin 0) = Fin 0"
    from zero_mul_finite[OF assms] show ?thesis
    proof
      assume "np_mul (Fin 0) e = Fin 0"
      then show ?thesis by (simp add: z)
    next
      assume "e = NaN"
      then show ?thesis by simp
    qed
  next
    assume "np_mul a (Fin 0) = NaN"
    then show ?thesis by simp
  qed
qed

lemma np_fin_nonneg: "0 \<le> r \<Longrightarrow> np_fin r = PInf \<or> (\<exists>v. np_fin r = Fin v \<and> 0 \<le> v)"
  using round64_nonneg[of r] by (auto simp: np_fin_def Let_def)

lemma np_fin_nonpos: "r \<le> 0 \<Longrightarrow> np_fin r = NInf \<or> (\<exists>v. np_fin r = Fin v \<and> v \<le> 0)"
  using round64_nonpos[of r] by (auto simp: np_fin_def Let_def)

lemma np_power2_cases: "np_power2 w = PInf \<or> np_power2 w = NaN \<or> (\<exists>v. np_power2 w = Fin v \<and> 0 \<le> v)"
proof (cases w)
  case (Fin a)
  then show ?thesis using np_fin_nonneg[of "a * a"] by auto
qed simp_all

lemma np_exp_nonpos: "r \<le> 0 \<Longrightarrow> \<exists>v. np_exp (Fin r) = Fin v"
proof -
  assume "r \<le> 0"
  then have "0 \<le> exp r" "exp r \<le> 1" by simp_all
  from np_fin_between[OF float64_0 float64_1 this] show ?thesis by auto
qed

lemma gaussian_factor_not_infinite:
  "np_exp (np_div (np_neg (np_power2 w)) (np_mul (Fin 2) (np_power2 st))) \<noteq> PInf \<and>
   np_exp (np_div (np_neg (np_power2 w)) (np_mul (Fin 2) (np_power2 st))) \<noteq> NInf"
proof -
  let ?N = "np_neg (np_power2 w)" and ?D = "np_mul (Fin 2) (np_power2 st)"
  have N: "?N = NInf \<or> ?N = NaN \<or> (\<exists>n. ?N = Fin n \<and> n \<le> 0)"
    using np_power2_cases[of w] by auto
  have D: "?D = PInf \<or> ?D = NaN \<or> (\<exists>d. ?D = Fin d \<and> 0 \<le> d)"
  proof -
    from np_power2_cases[of st] show ?thesis
    proof (elim disjE exE conjE)
      fix v assume v: "np_power2 st = Fin v" "0 \<le> v"
      then show ?thesis using np_fin_nonneg[of "2 * v"] by auto
    qed (simp_all add: inf_times_def)
  qed
  have Q: "np_div ?N ?D = NInf \<or> np_div ?N ?D = NaN \<or> (\<exists>q. np_div ?N ?D = Fin q \<and> q \<le> 0)"
  proof -
    have fin: "np_div (Fin n) (Fin d) = NInf \<or> np_div (Fin n) (Fin d) = NaN \<or>
               (\<exists>q. np_div (Fin n) (Fin d) = Fin q \<and> q \<le> 0)" if "n \<le> 0" "0 \<le> d" for n d
    proof (cases "d = 0")
      case True
      then show ?thesis using that by auto
    next
      case False
      with that have "n / d \<le> 0" by (simp add: divide_nonpos_pos)
      from np_fin_nonpos[OF this] show ?thesis using False by auto
    qed
    from N D show ?thesis
    proof (elim disjE exE conjE)
      fix n d assume "?N = Fin n" "n \<le> 0" "?D = Fin d" "0 \<le> d"
      then show ?thesis using fin[of n d] by simp
    qed simp_all
  qed
  from Q show ?thesis
  proof (elim disjE exE conjE)
    fix q assume "np_div ?N ?D = Fin q" "q \<le> 0"
    then show ?thesis using np_exp_nonpos[of q] by auto
  qed simp_all
qed

lemma gaussian_elems_not_infinite:
  "v \<in> set (elems (gaussian tt ut st)) \<Longrightarrow> v \<noteq> PInf \<and> v \<noteq> NInf"
  using gaussian_factor_not_infinite by (auto simp: gaussian_def)

subsection \<open>The closed form of the \<^verbatim>\<open>CatSetTime\<close> prediction\<close>

lemma bind_err_assoc: "bind_err (bind_err m f) g = bind_err m (\<lambda>v. bind_err (f v) g)"
  by (cases m) (simp_all add: bind_err_def)

lemma broadcast_to_binop_aux:
  assumes s1: "broadcast_shapes (shape a) (shape b) = Some s1"
    and c: "compat s (pad_shape (length s) s1)" and l: "length s1 \<le> length s"
    and wf: "wf_array a" "wf_array b"
  shows "expand s (pad_shape (length s) s1) (broadcast_to s1 a) = broadcast_to s a"
    and "expand s (pad_shape (length s) s1) (broadcast_to s1 b) = broadcast_to s b"
    and "length (broadcast_to s1 a) = prod_list s1"
    and "length (broadcast_to s1 b) = prod_list s1"
proof -
  show len: "length (broadcast_to s1 a) = prod_list s1" "length (broadcast_to s1 b) = prod_list s1"
    using length_broadcast_to[OF s1] wf by simp_all
  have la: "length (shape a) \<le> length s1" and lb: "length (shape b) \<le> length s1"
    using length_broadcast_shapes[OF s1] by simp_all
  show "expand s (pad_shape (length s) s1) (broadcast_to s1 a) = broadcast_to s a"
    by (rule broadcast_to_broadcast[OF broadcast_shapes_compat(1)[OF s1] la c l wf(1)])
  show "expand s (pad_shape (length s) s1) (broadcast_to s1 b) = broadcast_to s b"
    by (rule broadcast_to_broadcast[OF broadcast_shapes_compat(2)[OF s1] lb c l wf(2)])
qed

lemma length_broadcast_to_binop:
  assumes s1: "broadcast_shapes (shape a) (shape b) = Some s1"
    and c: "compat s (pad_shape (length s) s1)" and l: "length s1 \<le> length s"
    and wf: "wf_array a" "wf_array b"
  shows "length (broadcast_to s a) = prod_list s"
    and "length (broadcast_to s b) = prod_list s"
proof -
  note aux = broadcast_to_binop_aux[OF assms]
  have "length (expand s (pad_shape (length s) s1) (broadcast_to s1 a)) = prod_list s"
    by (rule length_expand[OF c]) (simp add: aux(3) prod_list_pad_shape)
  then show "length (broadcast_to s a) = prod_list s" by (simp only: aux(1))
  have "length (expand s (pad_shape (length s) s1) (broadcast_to s1 b)) = prod_list s"
    by (rule length_expand[OF c]) (simp add: aux(4) prod_list_pad_shape)
  then show "length (broadcast_to s b) = prod_list s" by (simp only: aux(2))
qed

lemma broadcast_to_binop:
  assumes s1: "broadcast_shapes (shape a) (shape b) = Some s1"
    and c: "compat s (pad_shape (length s) s1)" and l: "length s1 \<le> length s"
    and wf: "wf_array a" "wf_array b"
  shows "broadcast_to s \<lparr>shape = s1, elems = map2 f (broadcast_to s1 a) (broadcast_to s1 b)\<rparr>
           = map2 f (broadcast_to s a) (broadcast_to s b)"
proof -
  note aux = broadcast_to_binop_aux[OF assms]
  have "broadcast_to s \<lparr>shape = s1, elems = map2 f (broadcast_to s1 a) (broadcast_to s1 b)\<rparr>
      = expand s (pad_shape (length s) s1) (map2 f (broadcast_to s1 a) (broadcast_to s1 b))"
    by (simp add: broadcast_to_def)
  also have "\<dots> = map2 f (expand s (pad_shape (length s) s1) (broadcast_to s1 a))
                        (expand s (pad_shape (length s) s1) (broadcast_to s1 b))"
    by (rule expand_map2) (simp add: aux(3,4))
  finally show ?thesis by (simp only: aux(1,2))
qed

lemma map2_distrib:
  assumes "length xs = n" "length ys = n" "length es = n"
    and "\<And>i. i < n \<Longrightarrow> np_add (np_mul (xs ! i) (es ! i)) (np_mul (ys ! i) (es ! i))
                        = np_mul (np_add (xs ! i) (ys ! i)) (es ! i)"
  shows "map2 np_add (map2 np_mul xs es) (map2 np_mul ys es) = map2 np_mul (map2 np_add xs ys) es"
proof (rule nth_equalityI)
  show "length (map2 np_add (map2 np_mul xs es) (map2 np_mul ys es))
      = length (map2 np_mul (map2 np_add xs ys) es)"
    using assms(1-3) by simp
next
  fix i assume "i < length (map2 np_add (map2 np_mul xs es) (map2 np_mul ys es))"
  then have i: "i < n" using assms(1-3) by simp
  then show "map2 np_add (map2 np_mul xs es) (map2 np_mul ys es) ! i
      = map2 np_mul (map2 np_add xs ys) es ! i"
    using assms(1-3) assms(4)[OF i] by simp
qed

text \<open>
  Two arrays of one shape are stretched alike: a pair of elements at one position of the
  stretched arrays is a pair of elements at one position of the arrays.
\<close>

lemma zip_broadcast_to:
  assumes "shape A = shape B" "length (elems A) = length (elems B)"
  shows "set (zip (broadcast_to s A) (broadcast_to s B)) \<subseteq> set (zip (elems A) (elems B))"
proof -
  have "zip (broadcast_to s A) (broadcast_to s B)
      = expand s (pad_shape (length s) (shape A)) (zip (elems A) (elems B))"
    using assms by (simp add: broadcast_to_def expand_zip)
  then show ?thesis by (simp only: set_expand)
qed

lemma arr_binop_distrib:
  assumes wf: "wf_array A" "wf_array B" "wf_array E"
    and sh: "shape A = shape B"
    and pw: "\<And>X Z e. (X, Z) \<in> set (zip (elems A) (elems B)) \<Longrightarrow> e \<in> set (elems E) \<Longrightarrow>
               np_add (np_mul X e) (np_mul Z e) = np_mul (np_add X Z) e"
  shows "bind_err (arr_binop np_mul A E) (\<lambda>term1.
           bind_err (arr_binop np_mul B E) (\<lambda>term2. arr_binop np_add term1 term2))
         = bind_err (arr_binop np_add A B) (\<lambda>amplitude. arr_binop np_mul amplitude E)"
    (is "?code = ?closed")
proof (cases "\<exists>q s. broadcast_shapes (shape A) (shape B) = Some q \<and>
                      broadcast_shapes q (shape E) = Some s")
  case True
  then obtain q s where q: "broadcast_shapes (shape A) (shape B) = Some q"
    and qs: "broadcast_shapes q (shape E) = Some s" by blast
  then obtain s1 s2 where s1: "broadcast_shapes (shape A) (shape E) = Some s1"
    and s2: "broadcast_shapes (shape B) (shape E) = Some s2"
    and s12: "broadcast_shapes s1 s2 = Some s"
    using broadcast_shapes_assoc[of "shape A" "shape E" "shape B" s] by blast
  let ?As = "broadcast_to s A" and ?Bs = "broadcast_to s B" and ?Es = "broadcast_to s E"
  let ?t1 = "\<lparr>shape = s1, elems = map2 np_mul (broadcast_to s1 A) (broadcast_to s1 E)\<rparr>"
  let ?t2 = "\<lparr>shape = s2, elems = map2 np_mul (broadcast_to s2 B) (broadcast_to s2 E)\<rparr>"
  let ?amp = "\<lparr>shape = q, elems = map2 np_add (broadcast_to q A) (broadcast_to q B)\<rparr>"
  have l1: "length s1 \<le> length s" and l2: "length s2 \<le> length s" and lq: "length q \<le> length s"
    using length_broadcast_shapes[OF s12] length_broadcast_shapes[OF qs] by simp_all
  note c1 = broadcast_shapes_compat(1)[OF s12] and c2 = broadcast_shapes_compat(2)[OF s12]
    and cq = broadcast_shapes_compat(1)[OF qs]
  have t1: "broadcast_to s ?t1 = map2 np_mul ?As ?Es"
    by (rule broadcast_to_binop[OF s1 c1 l1 wf(1) wf(3)])
  have t2: "broadcast_to s ?t2 = map2 np_mul ?Bs ?Es"
    by (rule broadcast_to_binop[OF s2 c2 l2 wf(2) wf(3)])
  have am: "broadcast_to s ?amp = map2 np_add ?As ?Bs"
    by (rule broadcast_to_binop[OF q cq lq wf(1) wf(2)])
  note len = length_broadcast_to_binop[OF s1 c1 l1 wf(1) wf(3)]
    length_broadcast_to_binop(1)[OF s2 c2 l2 wf(2) wf(3)]
  have le: "length (elems A) = length (elems B)"
    using wf(1,2) sh by (simp add: wf_array_def)
  have "np_add (np_mul (?As ! i) (?Es ! i)) (np_mul (?Bs ! i) (?Es ! i))
      = np_mul (np_add (?As ! i) (?Bs ! i)) (?Es ! i)" if "i < prod_list s" for i
  proof -
    have "(?As ! i, ?Bs ! i) \<in> set (zip ?As ?Bs)"
      using that len by (auto simp: in_set_zip)
    then have "(?As ! i, ?Bs ! i) \<in> set (zip (elems A) (elems B))"
      using zip_broadcast_to[OF sh le, of s] by blast
    moreover have "?Es ! i \<in> set (elems E)"
      using that len set_broadcast_to[of s E] by (metis nth_mem subsetD)
    ultimately show ?thesis by (rule pw)
  qed
  then have eq: "map2 np_add (map2 np_mul ?As ?Es) (map2 np_mul ?Bs ?Es)
      = map2 np_mul (map2 np_add ?As ?Bs) ?Es"
    using map2_distrib[of ?As "prod_list s" ?Bs ?Es] len by simp
  have "?code = Inr \<lparr>shape = s, elems = map2 np_add (broadcast_to s ?t1) (broadcast_to s ?t2)\<rparr>"
    using s1 s2 s12 by (simp add: arr_binop_def bind_err_def)
  also have "\<dots> = Inr \<lparr>shape = s, elems = map2 np_mul (broadcast_to s ?amp) ?Es\<rparr>"
    by (simp only: t1 t2 am eq)
  also have "\<dots> = ?closed"
    using q qs by (simp add: arr_binop_def bind_err_def)
  finally show ?thesis .
next
  case False
  then have nocode: "\<not> (\<exists>s1 s2 s. broadcast_shapes (shape A) (shape E) = Some s1 \<and>
      broadcast_shapes (shape B) (shape E) = Some s2 \<and> broadcast_shapes s1 s2 = Some s)"
    using broadcast_shapes_assoc[of "shape A" "shape E" "shape B"] by blast
  have "?closed = Inl ValueError"
    using False by (auto simp: arr_binop_def bind_err_def split: option.splits)
  moreover have "?code = Inl ValueError"
    using nocode by (auto simp: arr_binop_def bind_err_def split: option.splits)
  ultimately show ?thesis by simp
qed

text \<open>
  C9, amended. The two gaussian terms of \<^verbatim>\<open>CatSetTime.model\<close> share the centre \<open>ut\<close> and
  the width \<open>st\<close>. When the two indicator arrays have the same shape and no trial belongs
  to both conditions, so that at every position one of the two indicators is 0, then for
  every parameter vector \<^verbatim>\<open>model\<close> returns
  \<^verbatim>\<open>(a_1*c1 + a_2*c2) * exp(-(t-ut)^2 / (2*st^2)) + a_0\<close>, and raises where that expression
  raises.
\<close>

theorem CatSetTime_model_closed_form:
  assumes wf: "wf_CatSetTime self"
    and c1: "conditions self 1 = Some c1" and c2: "conditions self 2 = Some c2"
    and sh: "shape c1 = shape c2"
    and ex: "\<forall>(u, v) \<in> set (zip (elems c1) (elems c2)). u = Fin 0 \<or> v = Fin 0"
  shows "fst (CatSetTime_model self x) = CatSetTime_closed_form self x"
proof (cases "CatSetTime_unpack x")
  case (Inl e)
  then show ?thesis by (simp add: CatSetTime_model_def CatSetTime_closed_form_def bind_err_def)
next
  case l: (Inr l)
  let ?A = "arr_map (np_mul (local_var l ''a_1'')) c1"
  let ?B = "arr_map (np_mul (local_var l ''a_2'')) c2"
  let ?E = "gaussian (t self) (local_var l ''ut'') (local_var l ''st'')"
  let ?g = "\<lambda>both. Inr (arr_map (\<lambda>v. np_add v (local_var l ''a_0'')) both) :: error + ndarray"
  from wf c1 c2 have wfA: "wf_array ?A" "wf_array ?B" "wf_array ?E"
    by (auto simp: wf_CatSetTime_def wf_Model_def ran_def)
  have shA: "shape ?A = shape ?B" using sh by simp
  have pw: "np_add (np_mul X e) (np_mul Z e) = np_mul (np_add X Z) e"
    if "(X, Z) \<in> set (zip (elems ?A) (elems ?B))" "e \<in> set (elems ?E)" for X Z e
  proof -
    from that(1) obtain u v where uv: "(u, v) \<in> set (zip (elems c1) (elems c2))"
      and X: "X = np_mul (local_var l ''a_1'') u" and Z: "Z = np_mul (local_var l ''a_2'') v"
      by (auto simp: zip_map_map)
    from that(2) have e: "e \<noteq> PInf" "e \<noteq> NInf"
      using gaussian_elems_not_infinite by blast+
    from ex uv have "u = Fin 0 \<or> v = Fin 0" by auto
    then show ?thesis
      unfolding X Z using np_distrib_left_zero[OF e] np_distrib_right_zero[OF e] by auto
  qed
  have "fst (CatSetTime_model self x)
      = bind_err (bind_err (arr_binop np_mul ?A ?E) (\<lambda>term1.
          bind_err (arr_binop np_mul ?B ?E) (\<lambda>term2. arr_binop np_add term1 term2))) ?g"
    using l c1 c2
    by (simp add: CatSetTime_model_def bind_err_assoc dict_getitem_def)
       (simp add: bind_err_def)
  also have "\<dots> = bind_err (bind_err (arr_binop np_add ?A ?B) (\<lambda>amplitude.
          arr_binop np_mul amplitude ?E)) ?g"
    by (simp only: arr_binop_distrib[OF wfA shA pw])
  also have "\<dots> = CatSetTime_closed_form self x"
    using l c1 c2
    by (simp add: CatSetTime_closed_form_def bind_err_assoc dict_getitem_def)
       (simp add: bind_err_def)
  finally show ?thesis .
qed

theorem CatSetTime_model_closed_form_witness:
  "wf_CatSetTime (CatSetTime_init example_data) \<and>
   conditions (CatSetTime_init example_data) 1 = Some \<lparr>shape = [2, 1], elems = [Fin 1, Fin 0]\<rparr> \<and>
   conditions (CatSetTime_init example_data) 2 = Some \<lparr>shape = [2, 1], elems = [Fin 0, Fin 1]\<rparr> \<and>
   fst (CatSetTime_model (CatSetTime_init example_data) [Fin 0, Fin 1, Fin 0, Fin 1, Fin 2])
     = CatSetTime_closed_form (CatSetTime_init example_data) [Fin 0, Fin 1, Fin 0, Fin 1, Fin 2] \<and>
   CatSetTime_closed_form (CatSetTime_init example_data) [Fin 0, Fin 1, Fin 0, Fin 1, Fin 2]
     = Inr \<lparr>shape = [2, 1], elems = [Fin 1, Fin 2]\<rparr>"
proof -
  have c1: "conditions (CatSetTime_init example_data) 1
      = Some \<lparr>shape = [2, 1], elems = [Fin 1, Fin 0]\<rparr>"
    by (simp add: example_simps)
  have c2: "conditions (CatSetTime_init example_data) 2
      = Some \<lparr>shape = [2, 1], elems = [Fin 0, Fin 1]\<rparr>"
    by (simp add: example_simps)
  have sh: "shape \<lparr>shape = [2, 1], elems = [Fin 1, Fin 0]\<rparr>
      = shape \<lparr>shape = [2, 1], elems = [Fin 0, Fin 1]\<rparr>" by simp
  have ex: "\<forall>(u, v) \<in> set (zip (elems \<lparr>shape = [2, 1], elems = [Fin 1, Fin 0]\<rparr>)
                               (elems \<lparr>shape = [2::nat, 1], elems = [Fin 0, Fin 1]\<rparr>)).
              u = Fin 0 \<or> v = Fin 0" by simp
  from CatSetTime_model_closed_form
    [OF wf_CatSetTime_example c1 c2 sh ex, of "[Fin 0, Fin 1, Fin 0, Fin 1, Fin 2]"]
  show ?thesis
    using wf_CatSetTime_example example_pairing(1) c1 c2 by simp
qed

lemma exp_minus_half_bounds: "1/4 \<le> exp (- (1/2) :: real)" "exp (- (1/2) :: real) \<le> 3/4"
proof -
  have a: "3/2 \<le> exp (1/2 :: real)" using exp_ge_add_one_self[of "1/2"] by simp
  have "exp (1/2 :: real) \<le> exp 1" by simp
  also have "\<dots> \<le> 3" by (rule exp_le)
  finally have b: "exp (1/2 :: real) \<le> 4" by simp
  have e: "exp (- (1/2) :: real) = 1 / exp (1/2)" by (simp add: exp_minus inverse_eq_divide)
  have p: "0 < exp (1/2 :: real)" by simp
  show "1/4 \<le> exp (- (1/2) :: real)" unfolding e using b p by (simp add: field_simps)
  show "exp (- (1/2) :: real) \<le> 3/4" unfolding e using a p by (simp add: field_simps)
qed

lemma float64_quarters: "float64 (1/4)" "float64 (3/4)"
proof -
  have "(1::real) / 4 = of_int 1 * 2 powi (- 2)" "(3::real) / 4 = of_int 3 * 2 powi (- 2)"
    by (simp_all add: power_int_minus)
  then show "float64 (1/4)" "float64 (3/4)"
    using float64I[of 1 "- 2"] float64I[of 3 "- 2"] by (simp_all add: power_int_minus)
qed

lemma float64_large:
  "float64 (2 ^ 1023)" "float64 (2 ^ 1021)" "float64 (3 * 2 ^ 1021)"
  "float64 (2 ^ 1022)" "float64 (3 * 2 ^ 1022)"
  using float64I[of 1 1023] float64I[of 1 1021] float64I[of 3 1021]
    float64I[of 1 1022] float64I[of 3 1022]
  by simp_all

lemma np_fin_overflow: "np_fin (2 ^ 1023 + 2 ^ 1023) = PInf"
proof -
  have "(2::real) ^ 1023 + 2 ^ 1023 = of_int 1 * 2 powi 1024" by simp
  then have "round64 (2 ^ 1023 + 2 ^ 1023) = 2 ^ 1024"
    using round64_representable[of 1 1024] by simp
  then show ?thesis by (simp add: np_fin_def)
qed

lemma overflow_example:
  "CatSetTime_closed_form overlap_CatSetTime [Fin 0, Fin 1, Fin 0, Fin (2 ^ 1023), Fin (2 ^ 1023)]
     = Inr \<lparr>shape = [1, 1], elems = [PInf]\<rparr>"
  "fst (CatSetTime_model overlap_CatSetTime [Fin 0, Fin 1, Fin 0, Fin (2 ^ 1023), Fin (2 ^ 1023)])
     \<noteq> Inr \<lparr>shape = [1, 1], elems = [PInf]\<rparr>"
proof -
  from np_fin_between[OF float64_quarters exp_minus_half_bounds] obtain e
    where e: "np_fin (exp (- (1/2))) = Fin e" "1/4 \<le> e" "e \<le> 3/4" by auto
  have e0: "0 < e" "e \<noteq> 0" using e(2) by simp_all
  have g: "gaussian \<lparr>shape = [1, 1], elems = [Fin 1]\<rparr> (Fin 0) (Fin 1)
      = \<lparr>shape = [1, 1], elems = [Fin e]\<rparr>"
    using e(1) by (simp add: gaussian_def arr_map_def np_sub_def np_fin_neg)
  have a: "np_fin (2 ^ 1023) = Fin (2 ^ 1023)"
    by (rule np_fin_float64[OF float64_large(1)])
  have "2 ^ 1021 \<le> 2 ^ 1023 * e" "2 ^ 1023 * e \<le> 3 * 2 ^ 1021" using e(2,3) by simp_all
  from np_fin_between[OF float64_large(2,3) this] obtain y
    where y: "np_fin (2 ^ 1023 * e) = Fin y" "2 ^ 1021 \<le> y" "y \<le> 3 * 2 ^ 1021" by auto
  have "2 ^ 1022 \<le> y + y" "y + y \<le> 3 * 2 ^ 1022" using y(2,3) by simp_all
  from np_fin_between[OF float64_large(4,5) this] obtain z
    where z: "np_fin (y + y) = Fin z" "float64 z" by auto
  have f: "np_fin z = Fin z" by (rule np_fin_float64[OF z(2)])
  have u: "CatSetTime_unpack [Fin 0, Fin 1, Fin 0, Fin (2 ^ 1023), Fin (2 ^ 1023)]
      = Inr [(''ut'', Fin 0), (''st'', Fin 1), (''a_0'', Fin 0),
             (''a_1'', Fin (2 ^ 1023)), (''a_2'', Fin (2 ^ 1023))]"
    by (simp add: CatSetTime_unpack_def bind_err_def getitem_def)
  have bin: "arr_binop h \<lparr>shape = [1, 1], elems = [v]\<rparr> \<lparr>shape = [1, 1], elems = [w]\<rparr>
      = Inr \<lparr>shape = [1, 1], elems = [h v w]\<rparr>" for h v w
    by (simp add: arr_binop_same_shape wf_array_def)
  show "CatSetTime_closed_form overlap_CatSetTime
          [Fin 0, Fin 1, Fin 0, Fin (2 ^ 1023), Fin (2 ^ 1023)]
      = Inr \<lparr>shape = [1, 1], elems = [PInf]\<rparr>"
    using u g bin a np_fin_overflow e0
    by (simp add: CatSetTime_closed_form_def bind_err_def dict_getitem_def overlap_CatSetTime_def
          local_var_def arr_map_def inf_times_def)
  have "fst (CatSetTime_model overlap_CatSetTime
          [Fin 0, Fin 1, Fin 0, Fin (2 ^ 1023), Fin (2 ^ 1023)])
      = Inr \<lparr>shape = [1, 1], elems = [Fin z]\<rparr>"
    using u g bin a y(1) z(1) f
    by (simp add: CatSetTime_model_def bind_err_def dict_getitem_def overlap_CatSetTime_def
          local_var_def arr_map_def)
  then show "fst (CatSetTime_model overlap_CatSetTime
          [Fin 0, Fin 1, Fin 0, Fin (2 ^ 1023), Fin (2 ^ 1023)])
      \<noteq> Inr \<lparr>shape = [1, 1], elems = [PInf]\<rparr>"
    by simp
qed

text \<open>
  C9, as stated, fails by overflow. The instance holds one trial, observed at time 1, that
  belongs to both conditions. With \<open>ut = 0\<close>, \<open>st = 1\<close> and \<open>a_1 = a_2 = 2\<^sup>1\<^sup>0\<^sup>2\<^sup>3\<close> the sum
  \<^verbatim>\<open>a_1*c1 + a_2*c2\<close> of the closed form overflows, and the closed form is \<open>inf\<close>; \<^verbatim>\<open>model\<close>
  multiplies each amplitude by the gaussian factor first and returns a finite number.
\<close>

theorem CatSetTime_closed_form_overflows:
  "conditions overlap_CatSetTime 1 = Some \<lparr>shape = [1, 1], elems = [Fin 1]\<rparr> \<and>
   conditions overlap_CatSetTime 2 = Some \<lparr>shape = [1, 1], elems = [Fin 1]\<rparr> \<and>
   CatSetTime_closed_form overlap_CatSetTime [Fin 0, Fin 1, Fin 0, Fin (2 ^ 1023), Fin (2 ^ 1023)]
     = Inr \<lparr>shape = [1, 1], elems = [PInf]\<rparr> \<and>
   fst (CatSetTime_model overlap_CatSetTime [Fin 0, Fin 1, Fin 0, Fin (2 ^ 1023), Fin (2 ^ 1023)])
     \<noteq> Inr \<lparr>shape = [1, 1], elems = [PInf]\<rparr>"
  using overflow_example by (simp add: overlap_CatSetTime_def)

end
